theory Spec2Isabelle
  imports Main
begin

section \<open>Documents, positions and slices of the host framework\<close>

text \<open>
  The file \<^verbatim>\<open>src/example/liquid/index.js\<close> holds the node view \<^verbatim>\<open>LiquidView\<close> of the
  inline atom \<^verbatim>\<open>liquid\<close> and the arrow-key commands of the outer editor. Both are written
  against the document, transaction and selection interfaces of the host editing
  framework, which is not part of the repository. The part of those interfaces that the
  file calls is modelled in this and the next two sections, each definition saying so; the
  functions of the file itself follow in the sections after them.
\<close>

datatype error = RangeError | TypeError | TransformError

text \<open>
  Modelled from the spec: the framework's node type (\<^verbatim>\<open>NodeType\<close>), of which the file
  reads the name and the getter \<^verbatim>\<open>isInline\<close>, the flag \<^verbatim>\<open>inline\<close> of the type's declaration.
\<close>

record node_type =
  name :: string
  isInline :: bool

text \<open>The type the file declares with \<^verbatim>\<open>liquidSpec\<close>, which sets \<^verbatim>\<open>inline: true\<close>.\<close>

definition liquid :: node_type where
  "liquid = \<lparr>name = ''liquid'', isInline = True\<rparr>"

text \<open>
  Modelled from the spec: the framework's content of a node (\<^verbatim>\<open>Fragment\<close>), seen through
  its positions. A position is an integer offset into a document's linear coordinate
  space, and every node occupies a contiguous range; a content is therefore the sequence
  of its position units: the opening and the closing boundary of a node with content, one
  character of text (with the names of its marks), or a leaf.
\<close>

datatype tok = Open node_type | Close node_type | Chr char "string list" | Leaf node_type

text \<open>
  Modelled from the spec: the framework's document node (\<^verbatim>\<open>Node\<close>) with content: its
  markup (type, attributes, marks) and its content. The \<^verbatim>\<open>liquid\<close> node and the documents
  of both editors are such nodes.
\<close>

record pnode =
  ntype :: node_type
  attrs :: "(string \<times> string) list"
  marks :: "string list"
  content :: "tok list"

text \<open>
  Modelled from the spec: the framework's getter \<^verbatim>\<open>nodeSize\<close>; the size of a node with
  content is the size of its content plus its two boundary units.
\<close>

definition nodeSize :: "pnode \<Rightarrow> nat" where
  "nodeSize n = length (content n) + 2"

text \<open>
  Modelled from the spec: the framework's markup-equality check \<^verbatim>\<open>sameMarkup\<close>, which
  compares type, attributes and marks.
\<close>

definition sameMarkup :: "pnode \<Rightarrow> pnode \<Rightarrow> bool" where
  "sameMarkup a b \<longleftrightarrow> ntype a = ntype b \<and> attrs a = attrs b \<and> marks a = marks b"

text \<open>
  Modelled from the spec: the framework's \<^verbatim>\<open>findDiffStart\<close>; diff-start is the first
  position, scanning forward from \<open>pos\<close>, at which two contents differ, and there is none
  (\<^verbatim>\<open>null\<close>) when they are equal.
\<close>

fun findDiffStart :: "tok list \<Rightarrow> tok list \<Rightarrow> nat \<Rightarrow> nat option" where
  "findDiffStart [] [] pos = None"
| "findDiffStart (x # xs) (y # ys) pos =
     (if x = y then findDiffStart xs ys (pos + 1) else Some pos)"
| "findDiffStart xs ys pos = Some pos"

text \<open>
  Modelled from the spec: the framework's \<^verbatim>\<open>findDiffEnd\<close>; diff-end scans backward from
  the two ends, one position per side, as long as the contents agree, and gives the two
  positions where it stops (\<^verbatim>\<open>a\<close> in the first content, \<^verbatim>\<open>b\<close> in the second); there is
  none (\<^verbatim>\<open>null\<close>) when the contents are equal. \<open>scanBack\<close> is its loop, on the reversed
  contents.
\<close>

fun scanBack :: "tok list \<Rightarrow> tok list \<Rightarrow> nat \<Rightarrow> nat \<Rightarrow> (nat \<times> nat) option" where
  "scanBack [] [] posA posB = None"
| "scanBack (x # xs) (y # ys) posA posB =
     (if x = y then scanBack xs ys (posA - 1) (posB - 1) else Some (posA, posB))"
| "scanBack xs ys posA posB = Some (posA, posB)"

definition findDiffEnd :: "tok list \<Rightarrow> tok list \<Rightarrow> (nat \<times> nat) option" where
  "findDiffEnd a b = scanBack (rev a) (rev b) (length a) (length b)"

text \<open>
  Modelled from the spec: the framework's content slicing \<^verbatim>\<open>node.slice(from, to)\<close>, the
  content between two positions of the node; it is empty when they coincide, and a
  position outside the node is a range error.
\<close>

definition slice :: "pnode \<Rightarrow> nat \<Rightarrow> nat \<Rightarrow> error + tok list" where
  "slice n from to =
     (if from = to then Inr []
      else if length (content n) < from \<or> length (content n) < to then Inl RangeError
      else Inr (take (to - from) (drop from (content n))))"

section \<open>The diff range of \<^verbatim>\<open>update\<close>\<close>

text \<open>
  Lines 100 and 101 of the source: \<^verbatim>\<open>overlap = start - Math.min(endA, endB)\<close>, and both
  ends move by \<open>overlap\<close> when it is positive. The difference is computed over the
  integers, as the source's numbers are.
\<close>

definition overlap :: "nat \<Rightarrow> nat \<Rightarrow> nat \<Rightarrow> int" where
  "overlap start endA endB = int start - int (min endA endB)"

definition widen :: "nat \<Rightarrow> nat \<times> nat \<Rightarrow> nat \<times> nat" where
  "widen start ends =
     (case ends of (endA, endB) \<Rightarrow>
        if overlap start endA endB > 0
        then (endA + nat (overlap start endA endB), endB + nat (overlap start endA endB))
        else (endA, endB))"

section \<open>Selections, steps and transactions of the host framework\<close>

text \<open>
  Modelled from the spec: the framework's selection, a pair of positions, with its
  getters \<^verbatim>\<open>from\<close>, \<^verbatim>\<open>to\<close> and \<^verbatim>\<open>empty\<close> (here \<open>sfrom\<close>, \<open>sto\<close> and \<open>sempty\<close>): the
  lower end, the upper end, and whether the selection is collapsed (a caret, not a
  range).
\<close>

record selection =
  anchor :: nat
  head :: nat

definition sfrom :: "selection \<Rightarrow> nat" where
  "sfrom s = min (anchor s) (head s)"

definition sto :: "selection \<Rightarrow> nat" where
  "sto s = max (anchor s) (head s)"

definition sempty :: "selection \<Rightarrow> bool" where
  "sempty s \<longleftrightarrow> sfrom s = sto s"

text \<open>
  Modelled from the spec: the framework's \<^verbatim>\<open>doc.resolve(pos)\<close>; a position outside the
  document is a range error.
\<close>

definition resolve :: "pnode \<Rightarrow> int \<Rightarrow> error + nat" where
  "resolve d pos =
     (if 0 \<le> pos \<and> pos \<le> int (length (content d)) then Inr (nat pos) else Inl RangeError)"

text \<open>
  Modelled from the spec: the framework's \<^verbatim>\<open>TextSelection.create(doc, anchor, head)\<close>,
  the construction of a selection from positions of a document; it resolves both.
\<close>

definition TextSelection_create :: "pnode \<Rightarrow> nat \<Rightarrow> nat \<Rightarrow> error + selection" where
  "TextSelection_create d a h =
     (case resolve d (int a) of
        Inl e \<Rightarrow> Inl e
      | Inr a' \<Rightarrow>
          (case resolve d (int h) of
             Inl e \<Rightarrow> Inl e
           | Inr h' \<Rightarrow> Inr \<lparr>anchor = a', head = h'\<rparr>))"

text \<open>
  Modelled from the spec: the framework's step, one document edit. The steps the file
  builds and remaps are replacements of a range \<open>[from, to)\<close> by a slice.
\<close>

datatype step = ReplaceStep nat nat "tok list"

text \<open>
  Modelled from the spec: the framework's application of a step to a document. The
  result keeps the content before \<open>from\<close> and after \<open>to\<close> and has the slice between
  them; a position outside the document is a range error, and a range whose end lies
  before its start does not apply.
\<close>

fun step_apply :: "pnode \<Rightarrow> step \<Rightarrow> error + pnode" where
  "step_apply d (ReplaceStep f t sl) =
     (if length (content d) < f \<or> length (content d) < t then Inl RangeError
      else if t < f then Inl TransformError
      else Inr (d\<lparr>content := take f (content d) @ sl @ drop t (content d)\<rparr>))"

text \<open>
  Modelled from the spec: the framework's \<^verbatim>\<open>StepMap.offset(n)\<close>, the offset mapping that
  translates a position of one coordinate space to the corresponding position of
  another, here by adding \<open>n\<close>.
\<close>

definition StepMap_offset :: "nat \<Rightarrow> nat \<Rightarrow> nat" where
  "StepMap_offset n pos = pos + n"

text \<open>
  Modelled from the spec: the framework's \<^verbatim>\<open>step.map(mapping)\<close>, which remaps a step to
  apply the same edit at another coordinate origin: both ends of its range go through
  the mapping, the slice stays.
\<close>

fun step_map :: "step \<Rightarrow> (nat \<Rightarrow> nat) \<Rightarrow> step" where
  "step_map (ReplaceStep f t sl) m = ReplaceStep (m f) (m t) sl"

text \<open>
  Modelled from the spec: the framework's mapping of a position through a step, from
  the document before the step to the one after it. A position before the replaced range
  stays, one behind it moves by the change of size, one at the start of a non-empty
  range stays there, and any other position of the range lands behind the slice.
  \<open>mapSelection\<close> maps both ends of a selection.
\<close>

fun mapPos :: "step \<Rightarrow> nat \<Rightarrow> nat" where
  "mapPos (ReplaceStep f t sl) pos =
     (if pos < f then pos
      else if pos \<le> t then (if f < t \<and> pos = f then f else f + length sl)
      else pos - (t - f) + length sl)"

definition mapSelection :: "step \<Rightarrow> selection \<Rightarrow> selection" where
  "mapSelection st s = \<lparr>anchor = mapPos st (anchor s), head = mapPos st (head s)\<rparr>"

text \<open>
  Modelled from the spec: the framework's transaction, an ordered list of steps on a
  document, with the document before the steps (\<^verbatim>\<open>before\<close>) and after them (\<^verbatim>\<open>doc\<close>, here
  \<open>tr_doc\<close>), the selection (\<open>tr_selection\<close>), the meta tags and the scroll-into-view
  request.
\<close>

record transaction =
  before :: pnode
  tr_doc :: pnode
  steps :: "step list"
  tr_selection :: selection
  meta :: "(string \<times> bool) list"
  scrolledIntoView :: bool

text \<open>
  Modelled from the spec: the framework's \<^verbatim>\<open>tr.step(step)\<close>, which applies the step to the
  transaction's document, appends it to the steps and carries the selection through it;
  a step that does not apply raises.
\<close>

definition tr_step :: "transaction \<Rightarrow> step \<Rightarrow> error + transaction" where
  "tr_step tr st =
     (case step_apply (tr_doc tr) st of
        Inl e \<Rightarrow> Inl e
      | Inr d \<Rightarrow>
          Inr (tr\<lparr>tr_doc := d, steps := steps tr @ [st],
                  tr_selection := mapSelection st (tr_selection tr)\<rparr>))"

text \<open>
  Modelled from the spec: the framework's replace-range \<^verbatim>\<open>tr.replace(from, to, slice)\<close>;
  it adds no step when the range and the slice are both empty.
\<close>

definition tr_replace :: "transaction \<Rightarrow> nat \<Rightarrow> nat \<Rightarrow> tok list \<Rightarrow> error + transaction" where
  "tr_replace tr f t sl =
     (if f = t \<and> sl = [] then Inr tr else tr_step tr (ReplaceStep f t sl))"

text \<open>
  Modelled from the spec: the framework's delete-range \<^verbatim>\<open>tr.delete(from, to)\<close>, the
  replacement by the empty slice.
\<close>

definition tr_delete :: "transaction \<Rightarrow> nat \<Rightarrow> nat \<Rightarrow> error + transaction" where
  "tr_delete tr f t = tr_replace tr f t []"

text \<open>Modelled from the spec: the framework's set-selection \<^verbatim>\<open>tr.setSelection(selection)\<close>.\<close>

definition tr_setSelection :: "transaction \<Rightarrow> selection \<Rightarrow> transaction" where
  "tr_setSelection tr s = tr\<lparr>tr_selection := s\<rparr>"

text \<open>Modelled from the spec: the framework's scroll-into-view \<^verbatim>\<open>tr.scrollIntoView()\<close>.\<close>

definition tr_scrollIntoView :: "transaction \<Rightarrow> transaction" where
  "tr_scrollIntoView tr = tr\<lparr>scrolledIntoView := True\<rparr>"

text \<open>
  Modelled from the spec: the framework's meta-tagging, \<^verbatim>\<open>tr.setMeta(key, value)\<close> and
  \<^verbatim>\<open>tr.getMeta(key)\<close>; a key that was never set has no value (\<^verbatim>\<open>undefined\<close>).
\<close>

definition setMeta :: "transaction \<Rightarrow> string \<Rightarrow> bool \<Rightarrow> transaction" where
  "setMeta tr k b = tr\<lparr>meta := (k, b) # meta tr\<rparr>"

definition getMeta :: "transaction \<Rightarrow> string \<Rightarrow> bool option" where
  "getMeta tr k = map_of (meta tr) k"

text \<open>
  The truth value the source's conditions give a value that may be absent: \<^verbatim>\<open>undefined\<close>
  and \<^verbatim>\<open>false\<close> are falsy.
\<close>

definition truthy :: "bool option \<Rightarrow> bool" where
  "truthy v \<longleftrightarrow> v = Some True"

text \<open>
  Modelled from the spec: the framework's \<^verbatim>\<open>docChanged\<close> flag of a transaction, which
  says that the transaction changes the document; the framework sets it when the
  transaction holds at least one step.
\<close>

definition docChanged :: "transaction \<Rightarrow> bool" where
  "docChanged tr \<longleftrightarrow> steps tr \<noteq> []"

section \<open>Editor states and views of the host framework\<close>

text \<open>
  Modelled from the spec: the framework's editor state (\<^verbatim>\<open>EditorState\<close>), of which the
  file reads the document and the selection.
\<close>

record editor_state =
  doc :: pnode
  selection :: selection

text \<open>
  Modelled from the spec: the framework's \<^verbatim>\<open>EditorState.create\<close>; the state created for
  a document has its caret at the start.
\<close>

definition EditorState_create :: "pnode \<Rightarrow> editor_state" where
  "EditorState_create d = \<lparr>doc = d, selection = \<lparr>anchor = 0, head = 0\<rparr>\<rparr>"

text \<open>
  Modelled from the spec: the framework's getter \<^verbatim>\<open>state.tr\<close>, a fresh transaction on the
  state.
\<close>

definition state_tr :: "editor_state \<Rightarrow> transaction" where
  "state_tr st =
     \<lparr>before = doc st, tr_doc = doc st, steps = [], tr_selection = selection st,
      meta = [], scrolledIntoView = False\<rparr>"

text \<open>
  Modelled from the spec: the framework's \<^verbatim>\<open>state.apply(tr)\<close>, which gives the state with
  the transaction's document and selection; a transaction that starts from another
  document is refused with a range error.
\<close>

definition apply_tr :: "editor_state \<Rightarrow> transaction \<Rightarrow> error + editor_state" where
  "apply_tr st tr =
     (if before tr = doc st then Inr \<lparr>doc = tr_doc tr, selection = tr_selection tr\<rparr>
      else Inl RangeError)"

text \<open>
  Modelled from the spec: the framework's \<^verbatim>\<open>state.applyTransaction(tr)\<close>, which returns
  the new state and the list of the transactions actually applied. The inner editor's
  only plugin is the keymap of the getter \<^verbatim>\<open>plugins\<close>, which neither filters nor appends
  transactions, so the list holds the transaction itself.
\<close>

definition applyTransaction ::
  "editor_state \<Rightarrow> transaction \<Rightarrow> error + (editor_state \<times> transaction list)" where
  "applyTransaction st tr =
     (case apply_tr st tr of Inl e \<Rightarrow> Inl e | Inr st' \<Rightarrow> Inr (st', [tr]))"

text \<open>
  Modelled from the spec: the framework's view (\<^verbatim>\<open>EditorView\<close>), which holds a state and
  may have the focus. \<open>dispatched\<close> records, in order, the transactions handed to the
  view's \<^verbatim>\<open>dispatch\<close>, so that a call of it leaves a trace.
\<close>

record editor_view =
  state :: editor_state
  hasFocus :: bool
  dispatched :: "transaction list"

text \<open>Modelled from the spec: the framework's \<^verbatim>\<open>view.updateState(state)\<close>.\<close>

definition updateState :: "editor_view \<Rightarrow> editor_state \<Rightarrow> editor_view" where
  "updateState ev st = ev\<lparr>state := st\<rparr>"

text \<open>Modelled from the spec: the framework's \<^verbatim>\<open>view.focus()\<close>.\<close>

definition focus :: "editor_view \<Rightarrow> editor_view" where
  "focus ev = ev\<lparr>hasFocus := True\<rparr>"

text \<open>
  Modelled from the spec: the framework's \<^verbatim>\<open>view.dispatch(tr)\<close> of a view without a
  dispatch callback of its own, as the outer view is: the transaction is applied to the
  view's state. What the host does after that (rendering, and calling \<^verbatim>\<open>update\<close> on the
  node views it keeps) is the host's and is not part of it.
\<close>

definition dispatch :: "editor_view \<Rightarrow> transaction \<Rightarrow> error + editor_view" where
  "dispatch ev tr =
     (case apply_tr (state ev) tr of
        Inl e \<Rightarrow> Inl e
      | Inr st \<Rightarrow> Inr (ev\<lparr>state := st, dispatched := dispatched ev @ [tr]\<rparr>))"

section \<open>The node view \<^verbatim>\<open>LiquidView\<close>\<close>

text \<open>
  The fields of the class: the bound node, the outer view, the position lookup and the
  inner view. \<^verbatim>\<open>getPos\<close> is a closure of the host that returns the node's current
  position in the outer document; the model holds the value it returns. The source
  tests \<^verbatim>\<open>this.innerView\<close> before using it in \<^verbatim>\<open>update\<close>, so the field is optional here;
  a method that reads it without the test fails with a type error when it is absent.
\<close>

record liquid_view =
  node :: pnode
  outerView :: editor_view
  getPos :: nat
  innerView :: "editor_view option"

text \<open>The getter \<^verbatim>\<open>length\<close>: \<^verbatim>\<open>this.node.nodeSize - 2\<close>.\<close>

definition lengthLV :: "liquid_view \<Rightarrow> nat" where
  "lengthLV v = nodeSize (node v) - 2"

text \<open>
  The two loops of \<^verbatim>\<open>dispatchInner\<close>: \<open>mapSteps\<close> is the loop over the steps of one
  transaction (index \<^verbatim>\<open>j\<close>), \<open>mapTransactions\<close> the loop over the transactions (index
  \<^verbatim>\<open>i\<close>). A step that does not apply to the outer transaction's document ends both.
\<close>

fun mapSteps :: "transaction \<Rightarrow> step list \<Rightarrow> (nat \<Rightarrow> nat) \<Rightarrow> error + transaction" where
  "mapSteps outerTr [] offsetMap = Inr outerTr"
| "mapSteps outerTr (st # sts) offsetMap =
     (case tr_step outerTr (step_map st offsetMap) of
        Inl e \<Rightarrow> Inl e
      | Inr outerTr' \<Rightarrow> mapSteps outerTr' sts offsetMap)"

fun mapTransactions ::
  "transaction \<Rightarrow> transaction list \<Rightarrow> (nat \<Rightarrow> nat) \<Rightarrow> error + transaction" where
  "mapTransactions outerTr [] offsetMap = Inr outerTr"
| "mapTransactions outerTr (t # ts) offsetMap =
     (case mapSteps outerTr (steps t) offsetMap of
        Inl e \<Rightarrow> Inl e
      | Inr outerTr' \<Rightarrow> mapTransactions outerTr' ts offsetMap)"

text \<open>
  The body of \<^verbatim>\<open>dispatchInner\<close>. The list of applied transactions it loops over comes
  from the framework's \<^verbatim>\<open>applyTransaction\<close>, which may expand a transaction into several;
  \<open>dispatchInnerWith\<close> takes that function as the parameter \<open>applyT\<close>, so that the loops
  are stated for whatever list the framework returns. \<open>dispatchInner\<close> is the method for
  the inner editor the constructor configures, whose \<^verbatim>\<open>applyTransaction\<close> is the one
  modelled above.
\<close>

definition dispatchInnerWith ::
  "(editor_state \<Rightarrow> transaction \<Rightarrow> error + (editor_state \<times> transaction list))
     \<Rightarrow> liquid_view \<Rightarrow> transaction \<Rightarrow> error + liquid_view" where
  "dispatchInnerWith applyT v tr =
     (case innerView v of
        None \<Rightarrow> Inl TypeError
      | Some iv \<Rightarrow>
          (case applyT (state iv) tr of
             Inl e \<Rightarrow> Inl e
           | Inr (st, transactions) \<Rightarrow>
               let v1 = v\<lparr>innerView := Some (updateState iv st)\<rparr> in
               if \<not> truthy (getMeta tr ''fromOutside'') then
                 (case mapTransactions (state_tr (state (outerView v1))) transactions
                         (StepMap_offset (getPos v1 + 1)) of
                    Inl e \<Rightarrow> Inl e
                  | Inr outerTr \<Rightarrow>
                      if docChanged outerTr then
                        (case dispatch (outerView v1) outerTr of
                           Inl e \<Rightarrow> Inl e
                         | Inr ov \<Rightarrow> Inr (v1\<lparr>outerView := ov\<rparr>))
                      else Inr v1)
               else Inr v1))"

definition dispatchInner :: "liquid_view \<Rightarrow> transaction \<Rightarrow> error + liquid_view" where
  "dispatchInner v tr = dispatchInnerWith applyTransaction v tr"

text \<open>
  \<^verbatim>\<open>setSelection\<close> hands its transaction to the inner view's \<^verbatim>\<open>dispatch\<close>, whose callback
  is \<^verbatim>\<open>dispatchInner\<close>, and focuses the inner view; \<^verbatim>\<open>selectNode\<close> and the constructor
  call it with \<open>(0, 0)\<close>.
\<close>

definition setSelection :: "liquid_view \<Rightarrow> nat \<Rightarrow> nat \<Rightarrow> error + liquid_view" where
  "setSelection v f t =
     (case innerView v of
        None \<Rightarrow> Inl TypeError
      | Some iv \<Rightarrow>
          (case TextSelection_create (doc (state iv)) f t of
             Inl e \<Rightarrow> Inl e
           | Inr s \<Rightarrow>
               (case dispatchInner v (tr_setSelection (state_tr (state iv)) s) of
                  Inl e \<Rightarrow> Inl e
                | Inr v' \<Rightarrow>
                    (case innerView v' of
                       None \<Rightarrow> Inl TypeError
                     | Some iv' \<Rightarrow> Inr (v'\<lparr>innerView := Some (focus iv')\<rparr>)))))"

definition selectNode :: "liquid_view \<Rightarrow> error + liquid_view" where
  "selectNode v = setSelection v 0 0"

definition LiquidView_new :: "pnode \<Rightarrow> editor_view \<Rightarrow> nat \<Rightarrow> error + liquid_view" where
  "LiquidView_new n view pos =
     setSelection
       \<lparr>node = n, outerView = view, getPos = pos,
        innerView = Some \<lparr>state = EditorState_create n, hasFocus = False, dispatched = []\<rparr>\<rparr>
       0 0"

text \<open>
  \<^verbatim>\<open>update\<close>. The destructuring of \<^verbatim>\<open>findDiffEnd\<close>'s result is a type error when there is
  none. The arguments of \<^verbatim>\<open>replace\<close> are evaluated first, so the slice is taken before
  the transaction is built.
\<close>

definition update :: "liquid_view \<Rightarrow> pnode \<Rightarrow> error + (bool \<times> liquid_view)" where
  "update v n =
     (if \<not> sameMarkup n (node v) then Inr (False, v)
      else
        let v1 = v\<lparr>node := n\<rparr> in
        (case innerView v1 of
           None \<Rightarrow> Inr (True, v1)
         | Some iv \<Rightarrow>
             let st = state iv in
             (case findDiffStart (content n) (content (doc st)) 0 of
                None \<Rightarrow> Inr (True, v1)
              | Some start \<Rightarrow>
                  (case findDiffEnd (content n) (content (doc st)) of
                     None \<Rightarrow> Inl TypeError
                   | Some ends \<Rightarrow>
                       (case widen start ends of (endA, endB) \<Rightarrow>
                          (case slice n start endA of
                             Inl e \<Rightarrow> Inl e
                           | Inr sl \<Rightarrow>
                               (case tr_replace (state_tr st) start endB sl of
                                  Inl e \<Rightarrow> Inl e
                                | Inr tr \<Rightarrow>
                                    (case dispatchInner v1 (setMeta tr ''fromOutside'' True) of
                                       Inl e \<Rightarrow> Inl e
                                     | Inr v2 \<Rightarrow> Inr (True, v2)))))))))"

text \<open>\<^verbatim>\<open>maybeEscape\<close>; the direction is the number the keymap passes, \<open>-1\<close> or \<open>1\<close>.\<close>

definition isOnEdge :: "liquid_view \<Rightarrow> selection \<Rightarrow> int \<Rightarrow> bool" where
  "isOnEdge v s dir = (if dir < 0 then sfrom s = 0 else sto s = lengthLV v)"

definition maybeEscape :: "liquid_view \<Rightarrow> int \<Rightarrow> error + (bool \<times> liquid_view)" where
  "maybeEscape v dir =
     (case innerView v of
        None \<Rightarrow> Inl TypeError
      | Some iv \<Rightarrow>
          let s = selection (state iv) in
          if \<not> sempty s \<or> \<not> isOnEdge v s dir then Inr (False, v)
          else
            let targetPos = getPos v + (if dir < 0 then 0 else nodeSize (node v)) in
            (case TextSelection_create (doc (state (outerView v))) targetPos targetPos of
               Inl e \<Rightarrow> Inl e
             | Inr s' \<Rightarrow>
                 (case dispatch (outerView v)
                         (tr_setSelection (state_tr (state (outerView v))) s') of
                    Inl e \<Rightarrow> Inl e
                  | Inr ov \<Rightarrow> Inr (True, v\<lparr>outerView := focus ov\<rparr>))))"

text \<open>
  \<^verbatim>\<open>maybeRemove\<close> returns \<^verbatim>\<open>true\<close> from inside its \<^verbatim>\<open>if\<close> and falls off its end otherwise:
  the result \<open>None\<close> is the source's \<^verbatim>\<open>undefined\<close>, which the keymap reads as not
  handled (\<open>truthy\<close>).
\<close>

definition maybeRemove :: "liquid_view \<Rightarrow> error + (bool option \<times> liquid_view)" where
  "maybeRemove v =
     (if lengthLV v = 0 then
        let st = state (outerView v); f = getPos v; t = f + nodeSize (node v) in
        (case TextSelection_create (doc st) f t of
           Inl e \<Rightarrow> Inl e
         | Inr s \<Rightarrow>
             (case tr_delete (tr_setSelection (state_tr st) s) f t of
                Inl e \<Rightarrow> Inl e
              | Inr tr \<Rightarrow>
                  (case dispatch (outerView v) (tr_scrollIntoView tr) of
                     Inl e \<Rightarrow> Inl e
                   | Inr ov \<Rightarrow> Inr (Some True, v\<lparr>outerView := ov\<rparr>))))
      else Inr (None, v))"

section \<open>The arrow-key commands of the outer editor\<close>

text \<open>
  Modelled from the spec: the framework's node next to a resolved position, of which
  the file reads the getters \<^verbatim>\<open>isText\<close> and \<^verbatim>\<open>isInline\<close>: a piece of text, which is
  inline, or a node of some type.
\<close>

datatype adjacent = TextNode | OtherNode node_type

fun isText :: "adjacent \<Rightarrow> bool" where
  "isText TextNode = True"
| "isText (OtherNode t) = False"

fun adjInline :: "adjacent \<Rightarrow> bool" where
  "adjInline TextNode = True"
| "adjInline (OtherNode t) = isInline t"

text \<open>
  Modelled from the spec: the framework's getter \<^verbatim>\<open>nodeAfter\<close> of a resolved position,
  the node directly after the position, if any: the text the position is in or in front
  of, the node that opens there, or the leaf there; at the end of the parent there is
  none.
\<close>

fun tokNodeAfter :: "tok \<Rightarrow> adjacent option" where
  "tokNodeAfter (Chr c ms) = Some TextNode"
| "tokNodeAfter (Open t) = Some (OtherNode t)"
| "tokNodeAfter (Leaf t) = Some (OtherNode t)"
| "tokNodeAfter (Close t) = None"

definition nodeAfter :: "pnode \<Rightarrow> nat \<Rightarrow> adjacent option" where
  "nodeAfter d pos =
     (if pos < length (content d) then tokNodeAfter (content d ! pos) else None)"

text \<open>
  Modelled from the spec: the framework's getter \<^verbatim>\<open>nodeBefore\<close> of a resolved position,
  the node directly before the position, if any: the text the position is in or behind,
  the node that closes there, or the leaf there; at the start of the parent there is
  none.
\<close>

fun tokNodeBefore :: "tok \<Rightarrow> adjacent option" where
  "tokNodeBefore (Chr c ms) = Some TextNode"
| "tokNodeBefore (Close t) = Some (OtherNode t)"
| "tokNodeBefore (Leaf t) = Some (OtherNode t)"
| "tokNodeBefore (Open t) = None"

definition nodeBefore :: "pnode \<Rightarrow> nat \<Rightarrow> adjacent option" where
  "nodeBefore d pos =
     (if 0 < pos \<and> pos \<le> length (content d) then tokNodeBefore (content d ! (pos - 1))
      else None)"

text \<open>
  \<^verbatim>\<open>isNearInlineBlock\<close>: the truth value of \<^verbatim>\<open>node && !node.isText && node.isInline\<close> for
  the node on the given side of the selection's head.
\<close>

definition isNearInlineBlock :: "editor_state \<Rightarrow> int \<Rightarrow> bool" where
  "isNearInlineBlock st side =
     (if side \<ge> 0 then
        (case nodeAfter (doc st) (head (selection st)) of
           None \<Rightarrow> False
         | Some n \<Rightarrow> \<not> isText n \<and> adjInline n)
      else
        (case nodeBefore (doc st) (head (selection st)) of
           None \<Rightarrow> False
         | Some n \<Rightarrow> \<not> isText n \<and> adjInline n))"

text \<open>The side of a direction: \<^verbatim>\<open>dir == 'left' || dir == 'up' ? -1 : 1\<close>.\<close>

definition sideOf :: "string \<Rightarrow> int" where
  "sideOf dir = (if dir = ''left'' \<or> dir = ''up'' then - 1 else 1)"

text \<open>
  The command \<^verbatim>\<open>arrowHandler(dir)\<close> returns, applied to a state. Its result holds the
  return value and the transaction handed to \<^verbatim>\<open>dispatch\<close>, if any. \<^verbatim>\<open>Selection.findFrom\<close>, the framework's
  rule to find the nearest valid selection from a position in a direction, is a
  parameter: given the document, the resolved position, the direction and the text-only
  flag it returns a selection or nothing (\<^verbatim>\<open>null\<close>), and setting nothing as the
  selection is a type error.
\<close>

definition arrowHandler ::
  "(pnode \<Rightarrow> nat \<Rightarrow> int \<Rightarrow> bool \<Rightarrow> selection option) \<Rightarrow> string \<Rightarrow> editor_state
     \<Rightarrow> error + (bool \<times> transaction option)" where
  "arrowHandler findFrom dir st =
     (let side = sideOf dir in
      if sempty (selection st) \<and> isNearInlineBlock st side then
        (case resolve (doc st) (int (head (selection st)) + side) of
           Inl e \<Rightarrow> Inl e
         | Inr pos \<Rightarrow>
             (case findFrom (doc st) pos side True of
                None \<Rightarrow> Inl TypeError
              | Some newSelection \<Rightarrow>
                  Inr (True,
                       Some (tr_scrollIntoView (tr_setSelection (state_tr st) newSelection)))))
      else Inr (False, None))"

section \<open>Well-formed transactions\<close>

text \<open>
  The document a list of steps leads to. A transaction of the framework starts as
  \<open>state_tr\<close> and grows by \<open>tr_step\<close>, so its steps lead from its \<open>before\<close> to its
  \<open>tr_doc\<close>; \<open>wf_transaction\<close> says so of an arbitrary record.
\<close>

fun apply_steps :: "pnode \<Rightarrow> step list \<Rightarrow> error + pnode" where
  "apply_steps d [] = Inr d"
| "apply_steps d (st # sts) =
     (case step_apply d st of Inl e \<Rightarrow> Inl e | Inr d' \<Rightarrow> apply_steps d' sts)"

definition wf_transaction :: "transaction \<Rightarrow> bool" where
  "wf_transaction tr \<longleftrightarrow> apply_steps (before tr) (steps tr) = Inr (tr_doc tr)"

section \<open>An example document\<close>

text \<open>
  A paragraph \<open>x{{s}}y\<close>: the \<^verbatim>\<open>liquid\<close> node with the text \<open>s\<close> starts at position 2 of
  the outer document. \<open>exampleView s\<close> is the node view bound to it, its inner editor
  holding the node with the caret at the start; \<open>exampleEdit\<close> is the inner transaction
  of typing \<open>b\<close> at inner position 1 of \<open>{{aa}}\<close>; \<open>caretAt\<close> is the answer
  \<^verbatim>\<open>Selection.findFrom\<close> gives at a position whose parent has inline content, a caret
  at that position. \<open>exampleAppended\<close> is a transaction of two steps on \<open>{{aba}}\<close>, typing
  \<open>c\<close> at the end and deleting the first character, and \<open>exampleApply\<close> is the
  \<^verbatim>\<open>applyTransaction\<close> of an editor that appends it to every transaction it applies, as a
  plugin of the framework may.
\<close>

definition para :: node_type where
  "para = \<lparr>name = ''paragraph'', isInline = False\<rparr>"

definition docType :: node_type where
  "docType = \<lparr>name = ''doc'', isInline = False\<rparr>"

definition textOf :: "string \<Rightarrow> tok list" where
  "textOf s = map (\<lambda>c. Chr c []) s"

definition liquidNode :: "string \<Rightarrow> pnode" where
  "liquidNode s = \<lparr>ntype = liquid, attrs = [], marks = [], content = textOf s\<rparr>"

definition outerDoc :: "string \<Rightarrow> pnode" where
  "outerDoc s =
     \<lparr>ntype = docType, attrs = [], marks = [],
      content = [Open para, Chr CHR ''x'' [], Open liquid] @ textOf s
                @ [Close liquid, Chr CHR ''y'' [], Close para]\<rparr>"

definition exampleInner :: "string \<Rightarrow> editor_view" where
  "exampleInner s =
     \<lparr>state = EditorState_create (liquidNode s), hasFocus = True, dispatched = []\<rparr>"

definition exampleOuter :: "string \<Rightarrow> editor_view" where
  "exampleOuter s =
     \<lparr>state = EditorState_create (outerDoc s), hasFocus = False, dispatched = []\<rparr>"

definition exampleView :: "string \<Rightarrow> liquid_view" where
  "exampleView s =
     \<lparr>node = liquidNode s, outerView = exampleOuter s, getPos = 2,
      innerView = Some (exampleInner s)\<rparr>"

definition exampleEdit :: transaction where
  "exampleEdit =
     \<lparr>before = liquidNode ''aa'', tr_doc = liquidNode ''aba'',
      steps = [ReplaceStep 1 1 (textOf ''b'')], tr_selection = \<lparr>anchor = 0, head = 0\<rparr>,
      meta = [], scrolledIntoView = False\<rparr>"

definition exampleAppended :: transaction where
  "exampleAppended =
     \<lparr>before = liquidNode ''aba'', tr_doc = liquidNode ''bac'',
      steps = [ReplaceStep 3 3 (textOf ''c''), ReplaceStep 0 1 []],
      tr_selection = \<lparr>anchor = 0, head = 0\<rparr>, meta = [], scrolledIntoView = False\<rparr>"

definition exampleApply ::
  "editor_state \<Rightarrow> transaction \<Rightarrow> error + (editor_state \<times> transaction list)" where
  "exampleApply st tr =
     (case apply_tr st tr of
        Inl e \<Rightarrow> Inl e
      | Inr st1 \<Rightarrow>
          (case apply_tr st1 exampleAppended of
             Inl e \<Rightarrow> Inl e
           | Inr st2 \<Rightarrow> Inr (st2, [tr, exampleAppended])))"

definition caretAt :: "pnode \<Rightarrow> nat \<Rightarrow> int \<Rightarrow> bool \<Rightarrow> selection option" where
  "caretAt d pos side textOnly = Some \<lparr>anchor = pos, head = pos\<rparr>"

section \<open>Properties of the framework model\<close>

lemma findDiffStart_None: "findDiffStart a b pos = None \<longleftrightarrow> a = b"
  by (induction a b pos rule: findDiffStart.induct) auto

lemma findDiffStart_Some:
  "findDiffStart a b pos = Some k \<Longrightarrow>
     \<exists>p. k = pos + p \<and> p \<le> length a \<and> p \<le> length b \<and> take p a = take p b"
proof (induction a b pos rule: findDiffStart.induct)
  case (2 x xs y ys pos)
  show ?case
  proof (cases "x = y")
    case True
    with 2 obtain p where "k = pos + 1 + p" "p \<le> length xs" "p \<le> length ys" "take p xs = take p ys"
      by auto
    with True show ?thesis by (intro exI[of _ "Suc p"]) simp
  next
    case False
    with 2 show ?thesis by (intro exI[of _ 0]) simp
  qed
qed auto

lemma scanBack_None: "scanBack a b posA posB = None \<longleftrightarrow> a = b"
  by (induction a b posA posB rule: scanBack.induct) auto

lemma scanBack_Some:
  "scanBack a b posA posB = Some (ea, eb) \<Longrightarrow>
     \<exists>s. ea = posA - s \<and> eb = posB - s \<and> s \<le> length a \<and> s \<le> length b \<and> take s a = take s b"
proof (induction a b posA posB rule: scanBack.induct)
  case (2 x xs y ys posA posB)
  show ?case
  proof (cases "x = y")
    case True
    with 2 obtain s where "ea = posA - 1 - s" "eb = posB - 1 - s" "s \<le> length xs" "s \<le> length ys" "take s xs = take s ys"
      by auto
    with True show ?thesis by (intro exI[of _ "Suc s"]) simp
  next
    case False
    with 2 show ?thesis by (intro exI[of _ 0]) simp
  qed
qed auto

lemma findDiffEnd_None: "findDiffEnd a b = None \<longleftrightarrow> a = b"
  by (simp add: findDiffEnd_def scanBack_None)

lemma findDiffEnd_Some:
  assumes "findDiffEnd a b = Some (ea, eb)"
  shows "\<exists>s. ea = length a - s \<and> eb = length b - s \<and> s \<le> length a \<and> s \<le> length b
            \<and> drop (length a - s) a = drop (length b - s) b"
proof -
  from assms obtain s where s: "ea = length a - s" "eb = length b - s" "s \<le> length a" "s \<le> length b"
      "take s (rev a) = take s (rev b)"
    unfolding findDiffEnd_def by (auto dest!: scanBack_Some)
  from s(5) have "rev (take s (rev a)) = rev (take s (rev b))" by simp
  then have "drop (length a - s) a = drop (length b - s) b"
    by (simp add: rev_take)
  with s show ?thesis by blast
qed

lemma drop_suffix_shrink:
  assumes "drop (length a - s) a = drop (length b - s) b" "t \<le> s" "s \<le> length a" "s \<le> length b"
  shows "drop (length a - t) a = drop (length b - t) b"
proof -
  have "drop (length a - t) a = drop (s - t) (drop (length a - s) a)"
    using assms(2,3) by simp
  also have "\<dots> = drop (s - t) (drop (length b - s) b)" using assms(1) by simp
  also have "\<dots> = drop (length b - t) b" using assms(2,4) by simp
  finally show ?thesis .
qed

lemma widen_splice:
  assumes p: "p \<le> length a" "p \<le> length b" "take p a = take p b"
    and s: "s \<le> length a" "s \<le> length b" "drop (length a - s) a = drop (length b - s) b"
    and w: "widen p (length a - s, length b - s) = (ea, eb)"
  shows "p \<le> ea \<and> p \<le> eb \<and> ea \<le> length a \<and> eb \<le> length b
         \<and> take p b @ take (ea - p) (drop p a) @ drop eb b = a"
proof -
  define m where "m = min (length a) (length b)"
  define t where "t = (if p + s > m then m - p else s)"
  have t: "t \<le> s" "p + t \<le> m" using p s by (auto simp: t_def m_def)
  have sm: "s \<le> m" "p \<le> m" "m \<le> length a" "m \<le> length b"
    using p(1,2) s(1,2) by (simp_all add: m_def)
  have hm: "min (length a - s) (length b - s) = m - s"
    using s(1,2) unfolding m_def by arith
  have ov: "overlap p (length a - s) (length b - s) = int p - int (m - s)"
    by (simp add: overlap_def hm)
  have "ea = length a - t \<and> eb = length b - t"
  proof (cases "p + s > m")
    case True
    then have pos: "overlap p (length a - s) (length b - s) > 0"
      and n: "nat (overlap p (length a - s) (length b - s)) = p + s - m"
      using sm unfolding ov by linarith+
    have "ea = length a - s + (p + s - m)" "eb = length b - s + (p + s - m)"
      using w pos n by (auto simp: widen_def)
    then show ?thesis using True sm unfolding t_def by auto
  next
    case False
    then have "\<not> overlap p (length a - s) (length b - s) > 0"
      using sm unfolding ov by linarith
    then have "ea = length a - s" "eb = length b - s" using w by (auto simp: widen_def)
    then show ?thesis using False by (simp add: t_def)
  qed
  then have ea: "ea = length a - t" and eb: "eb = length b - t" by simp_all
  have d: "drop (length a - t) a = drop (length b - t) b"
    using drop_suffix_shrink[OF s(3) t(1) s(1) s(2)] .
  have le: "p \<le> ea" "p \<le> eb" "ea \<le> length a" "eb \<le> length b"
    using t ea eb by (auto simp: m_def)
  have "take p b @ take (ea - p) (drop p a) @ drop eb b
        = take p a @ take (ea - p) (drop p a) @ drop ea a"
    using p d ea eb by simp
  also have "\<dots> = take ea a @ drop ea a"
    using le by (metis append.assoc le_add_diff_inverse take_add)
  finally show ?thesis using le by simp
qed

lemma step_apply_embedded:
  assumes "step_apply d st = Inr d'" "content od = P @ content d @ Q"
  shows "step_apply od (step_map st (StepMap_offset (length P)))
           = Inr (od\<lparr>content := P @ content d' @ Q\<rparr>)"
proof (cases st)
  case (ReplaceStep f t sl)
  with assms(1) have r: "f \<le> t" "t \<le> length (content d)"
    and d': "content d' = take f (content d) @ sl @ drop t (content d)"
    by (auto split: if_splits)
  show ?thesis using r d' assms(2) ReplaceStep
    by (simp add: StepMap_offset_def)
qed

lemma tr_step_embedded:
  assumes "step_apply d st = Inr d'" "content (tr_doc o1) = P @ content d @ Q"
  shows "\<exists>o2. tr_step o1 (step_map st (StepMap_offset (length P))) = Inr o2
           \<and> content (tr_doc o2) = P @ content d' @ Q
           \<and> steps o2 = steps o1 @ [step_map st (StepMap_offset (length P))]
           \<and> before o2 = before o1 \<and> meta o2 = meta o1
           \<and> scrolledIntoView o2 = scrolledIntoView o1"
  using step_apply_embedded[OF assms] by (simp add: tr_step_def)

lemma mapSteps_embedded:
  assumes "apply_steps d sts = Inr d'" "content (tr_doc o1) = P @ content d @ Q"
  shows "\<exists>o2. mapSteps o1 sts (StepMap_offset (length P)) = Inr o2
           \<and> content (tr_doc o2) = P @ content d' @ Q
           \<and> steps o2 = steps o1 @ map (\<lambda>st. step_map st (StepMap_offset (length P))) sts
           \<and> before o2 = before o1 \<and> meta o2 = meta o1
           \<and> scrolledIntoView o2 = scrolledIntoView o1"
  using assms
proof (induction sts arbitrary: d o1)
  case Nil
  then show ?case by simp
next
  case (Cons st sts)
  from Cons.prems(1) obtain d1 where d1: "step_apply d st = Inr d1" "apply_steps d1 sts = Inr d'"
    by (auto split: sum.splits)
  from tr_step_embedded[OF d1(1) Cons.prems(2)] obtain o2 where
    o2: "tr_step o1 (step_map st (StepMap_offset (length P))) = Inr o2"
      "content (tr_doc o2) = P @ content d1 @ Q"
      "steps o2 = steps o1 @ [step_map st (StepMap_offset (length P))]"
      "before o2 = before o1" "meta o2 = meta o1" "scrolledIntoView o2 = scrolledIntoView o1"
    by blast
  from Cons.IH[OF d1(2) o2(2)] obtain o3 where
    o3: "mapSteps o2 sts (StepMap_offset (length P)) = Inr o3"
      "content (tr_doc o3) = P @ content d' @ Q"
      "steps o3 = steps o2 @ map (\<lambda>st. step_map st (StepMap_offset (length P))) sts"
      "before o3 = before o2" "meta o3 = meta o2" "scrolledIntoView o3 = scrolledIntoView o2"
    by blast
  show ?case using o2 o3 by simp
qed

lemma mapSteps_steps:
  "mapSteps o1 sts m = Inr o2 \<Longrightarrow> steps o2 = steps o1 @ map (\<lambda>st. step_map st m) sts"
proof (induction sts arbitrary: o1)
  case Nil
  then show ?case by simp
next
  case (Cons st sts)
  then show ?case by (auto simp: tr_step_def split: sum.splits)
qed

lemma tr_replace_before:
  "tr_replace tr f t sl = Inr tr' \<Longrightarrow> before tr' = before tr \<and> meta tr' = meta tr"
  by (auto simp: tr_replace_def tr_step_def split: if_splits sum.splits)

lemma dispatchInner_tagged:
  assumes "innerView v = Some iv" "before tr = doc (state iv)" "truthy (getMeta tr ''fromOutside'')"
  shows "dispatchInner v tr
           = Inr (v\<lparr>innerView := Some (iv\<lparr>state := \<lparr>doc = tr_doc tr, selection = tr_selection tr\<rparr>\<rparr>)\<rparr>)"
  using assms by (simp add: dispatchInner_def dispatchInnerWith_def applyTransaction_def apply_tr_def updateState_def)

lemma truthy_setMeta: "truthy (getMeta (setMeta tr k True) k)"
  by (simp add: truthy_def getMeta_def setMeta_def)

lemma diff_replace:
  assumes "findDiffStart (content n) (content (doc st)) 0 = Some start"
    and "findDiffEnd (content n) (content (doc st)) = Some (endA, endB)"
    and "widen start (endA, endB) = (endA', endB')"
  shows "start \<le> endA' \<and> start \<le> endB' \<and> endA' \<le> length (content n)
         \<and> endB' \<le> length (content (doc st))
         \<and> (\<exists>sl tr. slice n start endA' = Inr sl
               \<and> tr_replace (state_tr st) start endB' sl = Inr tr
               \<and> content (tr_doc tr) = content n
               \<and> before tr = doc st)"
proof -
  let ?a = "content n" and ?b = "content (doc st)"
  from findDiffStart_Some[OF assms(1)]
  have p: "start \<le> length ?a" "start \<le> length ?b" "take start ?a = take start ?b" by auto
  from findDiffEnd_Some[OF assms(2)] obtain s where
    s: "endA = length ?a - s" "endB = length ?b - s" "s \<le> length ?a" "s \<le> length ?b"
       "drop (length ?a - s) ?a = drop (length ?b - s) ?b" by blast
  from assms(3) s(1,2) have w: "widen start (length ?a - s, length ?b - s) = (endA', endB')" by simp
  from widen_splice[OF p s(3,4,5) w]
  have r: "start \<le> endA'" "start \<le> endB'" "endA' \<le> length ?a" "endB' \<le> length ?b"
    and sp: "take start ?b @ take (endA' - start) (drop start ?a) @ drop endB' ?b = ?a" by auto
  define sl0 where "sl0 = take (endA' - start) (drop start ?a)"
  have sl: "slice n start endA' = Inr sl0"
    using r by (simp add: slice_def sl0_def)
  have sp': "take start ?b @ sl0 @ drop endB' ?b = ?a" using sp by (simp only: sl0_def)
  have "\<exists>tr. tr_replace (state_tr st) start endB' sl0 = Inr tr
          \<and> content (tr_doc tr) = ?a \<and> before tr = doc st"
  proof (cases "start = endB' \<and> sl0 = []")
    case True
    with sp' have "?b = ?a" by simp
    with True show ?thesis by (simp add: tr_replace_def state_tr_def)
  next
    case False
    then show ?thesis using r sp' by (auto simp: tr_replace_def tr_step_def state_tr_def)
  qed
  with sl r show ?thesis by blast
qed

lemma update_compatible:
  assumes "sameMarkup n (node v)" "innerView v = Some iv"
  shows "\<exists>iv'. update v n = Inr (True, v\<lparr>node := n, innerView := Some iv'\<rparr>)
           \<and> content (doc (state iv')) = content n"
proof (cases "findDiffStart (content n) (content (doc (state iv))) 0")
  case None
  then have "content n = content (doc (state iv))" by (simp add: findDiffStart_None)
  moreover have "v\<lparr>node := n, innerView := Some iv\<rparr> = v\<lparr>node := n\<rparr>" using assms(2) by simp
  ultimately show ?thesis using assms None
    by (intro exI[of _ iv]) (simp add: update_def)
next
  case (Some start)
  then have "content n \<noteq> content (doc (state iv))"
    using findDiffStart_None[of "content n" "content (doc (state iv))" 0] by simp
  then obtain endA endB where e: "findDiffEnd (content n) (content (doc (state iv))) = Some (endA, endB)"
    using findDiffEnd_None[of "content n" "content (doc (state iv))"] by (cases "findDiffEnd (content n) (content (doc (state iv)))") auto
  obtain endA' endB' where w: "widen start (endA, endB) = (endA', endB')" by (cases "widen start (endA, endB)")
  from diff_replace[OF Some e w] obtain sl tr where
    t: "slice n start endA' = Inr sl" "tr_replace (state_tr (state iv)) start endB' sl = Inr tr"
       "content (tr_doc tr) = content n" "before tr = doc (state iv)" by blast
  let ?tr = "setMeta tr ''fromOutside'' True"
  have iv1: "innerView (v\<lparr>node := n\<rparr>) = Some iv" using assms(2) by simp
  have b: "before ?tr = doc (state iv)" using t(4) by (simp add: setMeta_def)
  have d: "dispatchInner (v\<lparr>node := n\<rparr>) ?tr
      = Inr (v\<lparr>node := n, innerView := Some (iv\<lparr>state := \<lparr>doc = tr_doc ?tr, selection = tr_selection ?tr\<rparr>\<rparr>)\<rparr>)"
    using dispatchInner_tagged[OF iv1 b truthy_setMeta] by simp
  show ?thesis
    using assms Some e w t d
    by (intro exI[of _ "iv\<lparr>state := \<lparr>doc = tr_doc ?tr, selection = tr_selection ?tr\<rparr>\<rparr>"])
       (simp add: update_def setMeta_def)
qed

lemma step_map_offset:
  "step_map st (StepMap_offset n) = (case st of ReplaceStep f t sl \<Rightarrow> ReplaceStep (f + n) (t + n) sl)"
  by (cases st) (simp add: StepMap_offset_def)

lemma step_map_offset_fun:
  "(\<lambda>st. step_map st (StepMap_offset n))
     = (\<lambda>s. case s of ReplaceStep f t sl \<Rightarrow> ReplaceStep (f + n) (t + n) sl)"
  by (rule ext) (simp add: step_map_offset)

lemma lengthLV_content: "lengthLV v = length (content (node v))"
  by (simp add: lengthLV_def nodeSize_def)

lemma TextSelection_create_ok:
  "a \<le> length (content d) \<Longrightarrow> h \<le> length (content d) \<Longrightarrow>
     TextSelection_create d a h = Inr \<lparr>anchor = a, head = h\<rparr>"
  by (simp add: TextSelection_create_def resolve_def)

lemma tr_delete_ok:
  assumes "f < t" "t \<le> length (content (tr_doc tr))"
  shows "tr_delete tr f t
           = Inr (tr\<lparr>tr_doc := (tr_doc tr)\<lparr>content := take f (content (tr_doc tr))
                                                        @ drop t (content (tr_doc tr))\<rparr>,
                    steps := steps tr @ [ReplaceStep f t []],
                    tr_selection := mapSelection (ReplaceStep f t []) (tr_selection tr)\<rparr>)"
  using assms by (simp add: tr_delete_def tr_replace_def tr_step_def)

lemma dispatch_ok:
  "before tr = doc (state ev) \<Longrightarrow>
     dispatch ev tr = Inr (ev\<lparr>state := \<lparr>doc = tr_doc tr, selection = tr_selection tr\<rparr>,
                              dispatched := dispatched ev @ [tr]\<rparr>)"
  by (simp add: dispatch_def apply_tr_def)

lemma maybeRemove_empty:
  assumes z: "lengthLV v = 0"
    and rng: "getPos v + nodeSize (node v) \<le> length (content (doc (state (outerView v))))"
  shows "\<exists>tr ov. maybeRemove v = Inr (Some True, v\<lparr>outerView := ov\<rparr>)
              \<and> tr_delete (tr_setSelection (state_tr (state (outerView v)))
                     \<lparr>anchor = getPos v, head = getPos v + nodeSize (node v)\<rparr>)
                   (getPos v) (getPos v + nodeSize (node v)) = Inr tr
              \<and> steps tr = [ReplaceStep (getPos v) (getPos v + nodeSize (node v)) []]
              \<and> dispatch (outerView v) (tr_scrollIntoView tr) = Inr ov
              \<and> dispatched ov = dispatched (outerView v) @ [tr_scrollIntoView tr]
              \<and> scrolledIntoView (tr_scrollIntoView tr)
              \<and> content (doc (state ov))
                  = take (getPos v) (content (doc (state (outerView v))))
                    @ drop (getPos v + nodeSize (node v)) (content (doc (state (outerView v))))"
proof -
  let ?st = "state (outerView v)"
  let ?f = "getPos v" and ?t = "getPos v + nodeSize (node v)"
  let ?tr0 = "tr_setSelection (state_tr ?st) \<lparr>anchor = ?f, head = ?t\<rparr>"
  have ft: "?f < ?t" by (simp add: nodeSize_def)
  have ts: "TextSelection_create (doc ?st) ?f ?t = Inr \<lparr>anchor = ?f, head = ?t\<rparr>"
    using rng by (intro TextSelection_create_ok) simp_all
  have t0: "tr_doc ?tr0 = doc ?st" "before ?tr0 = doc ?st" "steps ?tr0 = []"
    by (simp_all add: tr_setSelection_def state_tr_def)
  have "?t \<le> length (content (tr_doc ?tr0))" using rng t0(1) by simp
  from tr_delete_ok[OF ft this] obtain tr where
    tr: "tr_delete ?tr0 ?f ?t = Inr tr"
      "tr_doc tr = (doc ?st)\<lparr>content := take ?f (content (doc ?st)) @ drop ?t (content (doc ?st))\<rparr>"
      "steps tr = [ReplaceStep ?f ?t []]" "before tr = doc ?st"
    using t0 by simp
  have "before (tr_scrollIntoView tr) = doc (state (outerView v))"
    using tr(4) by (simp add: tr_scrollIntoView_def)
  from dispatch_ok[OF this] obtain ov where
    ov: "dispatch (outerView v) (tr_scrollIntoView tr) = Inr ov"
      "dispatched ov = dispatched (outerView v) @ [tr_scrollIntoView tr]"
      "doc (state ov) = tr_doc (tr_scrollIntoView tr)"
    by simp
  have c: "content (doc (state ov)) = take ?f (content (doc ?st)) @ drop ?t (content (doc ?st))"
    using ov(3) tr(2) by (simp add: tr_scrollIntoView_def)
  have m: "maybeRemove v = Inr (Some True, v\<lparr>outerView := ov\<rparr>)"
    using z ts tr(1) ov(1) by (simp add: maybeRemove_def Let_def)
  have s: "scrolledIntoView (tr_scrollIntoView tr)" by (simp add: tr_scrollIntoView_def)
  show ?thesis using m tr(1,3) ov(1,2) s c by blast
qed

lemma maybeRemove_nonempty: "lengthLV v \<noteq> 0 \<Longrightarrow> maybeRemove v = Inr (None, v)"
  by (simp add: maybeRemove_def)

lemma near_resolve:
  assumes "isNearInlineBlock st side" "side = 1 \<or> side = - 1"
  shows "resolve (doc st) (int (head (selection st)) + side) = Inr (nat (int (head (selection st)) + side))"
  using assms
  by (auto simp: isNearInlineBlock_def nodeAfter_def nodeBefore_def resolve_def Suc_le_eq
      split: option.splits if_splits)

lemma sideOf_cases: "sideOf dir = 1 \<or> sideOf dir = - 1"
  by (simp add: sideOf_def)

lemma near_iff:
  "isNearInlineBlock st side \<longleftrightarrow>
     (\<exists>t. (if side \<ge> 0 then nodeAfter (doc st) (head (selection st))
                      else nodeBefore (doc st) (head (selection st))) = Some (OtherNode t)
          \<and> isInline t)"
proof (cases "side \<ge> 0")
  case True
  show ?thesis
  proof (cases "nodeAfter (doc st) (head (selection st))")
    case None
    with True show ?thesis by (simp add: isNearInlineBlock_def)
  next
    case (Some n)
    with True show ?thesis by (cases n) (simp_all add: isNearInlineBlock_def)
  qed
next
  case False
  show ?thesis
  proof (cases "nodeBefore (doc st) (head (selection st))")
    case None
    with False show ?thesis by (simp add: isNearInlineBlock_def)
  next
    case (Some n)
    with False show ?thesis by (cases n) (simp_all add: isNearInlineBlock_def)
  qed
qed

lemma update_incompatible: "\<not> sameMarkup n (node v) \<Longrightarrow> update v n = Inr (False, v)"
  by (simp add: update_def)

lemma update_no_inner:
  "sameMarkup n (node v) \<Longrightarrow> innerView v = None \<Longrightarrow> update v n = Inr (True, v\<lparr>node := n\<rparr>)"
  by (simp add: update_def)

lemma update_in_sync:
  assumes "sameMarkup n (node v)" "innerView v = Some iv" "content (doc (state iv)) = content n"
  shows "update v n = Inr (True, v\<lparr>node := n\<rparr>)"
proof -
  have "findDiffStart (content n) (content (doc (state iv))) 0 = None"
    using assms(3) by (simp add: findDiffStart_None)
  then show ?thesis using assms(1,2) by (simp add: update_def)
qed

lemma update_total:
  "\<exists>v'. update v n = Inr (sameMarkup n (node v), v')
        \<and> node v' = (if sameMarkup n (node v) then n else node v)
        \<and> outerView v' = outerView v \<and> getPos v' = getPos v"
proof (cases "sameMarkup n (node v)")
  case False
  then show ?thesis by (simp add: update_incompatible)
next
  case True
  show ?thesis
  proof (cases "innerView v")
    case None
    with True show ?thesis by (simp add: update_no_inner)
  next
    case (Some iv)
    from update_compatible[OF True Some] obtain iv' where
      "update v n = Inr (True, v\<lparr>node := n, innerView := Some iv'\<rparr>)" by blast
    with True show ?thesis by simp
  qed
qed

lemma apply_steps_append:
  "apply_steps d (xs @ ys)
     = (case apply_steps d xs of Inl e \<Rightarrow> Inl e | Inr d' \<Rightarrow> apply_steps d' ys)"
  by (induction xs arbitrary: d) (auto split: sum.splits)

lemma wf_state_tr: "wf_transaction (state_tr st)"
  by (simp add: wf_transaction_def state_tr_def)

lemma wf_tr_step:
  assumes "wf_transaction tr" "tr_step tr st = Inr tr'"
  shows "wf_transaction tr'"
proof -
  from assms(2) obtain d where d: "step_apply (tr_doc tr) st = Inr d"
    and tr': "tr' = tr\<lparr>tr_doc := d, steps := steps tr @ [st],
                       tr_selection := mapSelection st (tr_selection tr)\<rparr>"
    by (auto simp: tr_step_def split: sum.splits)
  show ?thesis
    using assms(1) d unfolding tr' by (simp add: wf_transaction_def apply_steps_append)
qed

lemma LiquidView_new_result:
  "LiquidView_new n view pos
     = Inr \<lparr>node = n, outerView = view, getPos = pos,
            innerView = Some \<lparr>state = EditorState_create n, hasFocus = True, dispatched = []\<rparr>\<rparr>"
  by (simp add: LiquidView_new_def setSelection_def TextSelection_create_def resolve_def
      EditorState_create_def dispatchInner_def dispatchInnerWith_def applyTransaction_def apply_tr_def
      tr_setSelection_def state_tr_def getMeta_def truthy_def updateState_def docChanged_def
      focus_def)

lemma mapTransactions_steps:
  "mapTransactions o1 ts m = Inr o2 \<Longrightarrow>
     steps o2 = steps o1 @ map (\<lambda>st. step_map st m) (concat (map steps ts))"
proof (induction ts arbitrary: o1)
  case Nil
  then show ?case by simp
next
  case (Cons t ts)
  then show ?case by (auto split: sum.splits dest!: mapSteps_steps)
qed

lemma exampleView_constructed:
  "LiquidView_new (liquidNode s) (exampleOuter s) 2 = Inr (exampleView s)"
  by (simp add: LiquidView_new_result exampleView_def exampleInner_def)

lemma exampleEdit_built:
  "tr_replace (state_tr (state (exampleInner ''aa''))) 1 1 (textOf ''b'') = Inr exampleEdit"
  by (simp add: tr_replace_def tr_step_def state_tr_def exampleInner_def EditorState_create_def
      exampleEdit_def liquidNode_def textOf_def mapSelection_def)

lemma mapTransactions_embedded:
  assumes "apply_steps d (concat (map steps ts)) = Inr d'"
    and "content (tr_doc o1) = P @ content d @ Q"
  shows "\<exists>o2. mapTransactions o1 ts (StepMap_offset (length P)) = Inr o2
           \<and> content (tr_doc o2) = P @ content d' @ Q
           \<and> steps o2 = steps o1
                @ map (\<lambda>st. step_map st (StepMap_offset (length P))) (concat (map steps ts))
           \<and> before o2 = before o1"
  using assms
proof (induction ts arbitrary: d o1)
  case Nil
  then show ?case by simp
next
  case (Cons t ts)
  from Cons.prems(1) obtain d1 where
    d1: "apply_steps d (steps t) = Inr d1" "apply_steps d1 (concat (map steps ts)) = Inr d'"
    by (auto simp: apply_steps_append split: sum.splits)
  from mapSteps_embedded[OF d1(1) Cons.prems(2)] obtain o2 where
    o2: "mapSteps o1 (steps t) (StepMap_offset (length P)) = Inr o2"
      "content (tr_doc o2) = P @ content d1 @ Q"
      "steps o2 = steps o1 @ map (\<lambda>st. step_map st (StepMap_offset (length P))) (steps t)"
      "before o2 = before o1"
    by blast
  from Cons.IH[OF d1(2) o2(2)] obtain o3 where
    o3: "mapTransactions o2 ts (StepMap_offset (length P)) = Inr o3"
      "content (tr_doc o3) = P @ content d' @ Q"
      "steps o3 = steps o2
         @ map (\<lambda>st. step_map st (StepMap_offset (length P))) (concat (map steps ts))"
      "before o3 = before o2"
    by blast
  show ?case using o2 o3 by simp
qed

lemma dispatchInnerWith_propagates:
  assumes iv: "innerView v = Some iv"
    and at: "applyT (state iv) tr = Inr (st, transactions)"
    and chain: "apply_steps (doc (state iv)) (concat (map steps transactions)) = Inr (doc st)"
    and nt: "\<not> truthy (getMeta tr ''fromOutside'')"
    and emb: "content (doc (state (outerView v)))
                = pre @ Open ty # content (doc (state iv)) @ Close ty # post"
    and len: "length pre = getPos v"
  shows "\<exists>outerTr.
           mapTransactions (state_tr (state (outerView v))) transactions
              (StepMap_offset (getPos v + 1)) = Inr outerTr
         \<and> steps outerTr
             = map (\<lambda>s. case s of ReplaceStep f t sl \<Rightarrow>
                          ReplaceStep (f + (getPos v + 1)) (t + (getPos v + 1)) sl)
                 (concat (map steps transactions))
         \<and> content (tr_doc outerTr) = pre @ Open ty # content (doc st) @ Close ty # post
         \<and> dispatchInnerWith applyT v tr
             = (if docChanged outerTr
                then Inr (v\<lparr>innerView := Some (iv\<lparr>state := st\<rparr>),
                            outerView := (outerView v)
                              \<lparr>state := \<lparr>doc = tr_doc outerTr, selection = tr_selection outerTr\<rparr>,
                               dispatched := dispatched (outerView v) @ [outerTr]\<rparr>\<rparr>)
                else Inr (v\<lparr>innerView := Some (iv\<lparr>state := st\<rparr>)\<rparr>))"
proof -
  let ?P = "pre @ [Open ty]" and ?Q = "Close ty # post"
  let ?o1 = "state_tr (state (outerView v))"
  have lp: "length ?P = getPos v + 1" using len by simp
  have c1: "content (tr_doc ?o1) = ?P @ content (doc (state iv)) @ ?Q"
    using emb by (simp add: state_tr_def)
  from mapTransactions_embedded[OF chain c1] obtain o2 where
    o2: "mapTransactions ?o1 transactions (StepMap_offset (length ?P)) = Inr o2"
      "content (tr_doc o2) = ?P @ content (doc st) @ ?Q"
      "steps o2 = steps ?o1
         @ map (\<lambda>st. step_map st (StepMap_offset (length ?P))) (concat (map steps transactions))"
      "before o2 = before ?o1"
    by blast
  have mt: "mapTransactions ?o1 transactions (StepMap_offset (getPos v + 1)) = Inr o2"
    using o2(1) unfolding lp .
  have st2: "steps o2 = map (\<lambda>s. case s of ReplaceStep f t sl \<Rightarrow>
                          ReplaceStep (f + (getPos v + 1)) (t + (getPos v + 1)) sl)
                      (concat (map steps transactions))"
  proof -
    have "steps o2 = map (\<lambda>st. step_map st (StepMap_offset (getPos v + 1)))
                       (concat (map steps transactions))"
      using o2(3) unfolding lp by (simp add: state_tr_def)
    then show ?thesis by (simp only: step_map_offset_fun)
  qed
  have c2: "content (tr_doc o2) = pre @ Open ty # content (doc st) @ Close ty # post"
    using o2(2) by simp
  have bo: "before o2 = doc (state (outerView v))" using o2(4) by (simp add: state_tr_def)
  have di: "dispatchInnerWith applyT v tr
             = (if docChanged o2
                then Inr (v\<lparr>innerView := Some (iv\<lparr>state := st\<rparr>),
                            outerView := (outerView v)
                              \<lparr>state := \<lparr>doc = tr_doc o2, selection = tr_selection o2\<rparr>,
                               dispatched := dispatched (outerView v) @ [o2]\<rparr>\<rparr>)
                else Inr (v\<lparr>innerView := Some (iv\<lparr>state := st\<rparr>)\<rparr>))"
    using iv at nt mt bo
    by (simp add: dispatchInnerWith_def updateState_def dispatch_def apply_tr_def)
  show ?thesis using mt st2 c2 di by blast
qed

lemma applyTransaction_wf:
  assumes "before tr = doc st0" "wf_transaction tr"
  shows "applyTransaction st0 tr = Inr (\<lparr>doc = tr_doc tr, selection = tr_selection tr\<rparr>, [tr])
         \<and> apply_steps (doc st0) (concat (map steps [tr]))
             = Inr (doc \<lparr>doc = tr_doc tr, selection = tr_selection tr\<rparr>)"
  using assms by (simp add: applyTransaction_def apply_tr_def wf_transaction_def)

lemma diff_replace_step:
  assumes "findDiffStart (content n) (content (doc st)) 0 = Some start"
    and "findDiffEnd (content n) (content (doc st)) = Some (endA, endB)"
    and "widen start (endA, endB) = (endA', endB')"
    and "slice n start endA' = Inr sl"
    and "tr_replace (state_tr st) start endB' sl = Inr tr"
    and "content (tr_doc tr) = content n"
  shows "steps tr = [ReplaceStep start endB' sl]"
proof (cases "start = endB' \<and> sl = []")
  case True
  with assms(5) have "tr = state_tr st" by (simp add: tr_replace_def)
  with assms(6) have "content (doc st) = content n" by (simp add: state_tr_def)
  then have "findDiffStart (content n) (content (doc st)) 0 = None"
    by (simp add: findDiffStart_None)
  with assms(1) show ?thesis by simp
next
  case False
  with assms(5) show ?thesis
    by (auto simp: tr_replace_def tr_step_def state_tr_def split: sum.splits)
qed

lemma update_unfold:
  assumes "sameMarkup n (node v)" "innerView v = Some iv"
    and "findDiffStart (content n) (content (doc (state iv))) 0 = Some start"
    and "findDiffEnd (content n) (content (doc (state iv))) = Some (endA, endB)"
    and "widen start (endA, endB) = (endA', endB')"
    and "slice n start endA' = Inr sl"
    and "tr_replace (state_tr (state iv)) start endB' sl = Inr tr"
  shows "update v n
           = (case dispatchInner (v\<lparr>node := n\<rparr>) (setMeta tr ''fromOutside'' True) of
                Inl e \<Rightarrow> Inl e
              | Inr v2 \<Rightarrow> Inr (True, v2))"
  using assms by (simp add: update_def)

section \<open>The claims\<close>

subsection \<open>Outer to inner: \<^verbatim>\<open>update\<close>\<close>

text \<open>
  Claim C1. For a new node with the markup of the bound node, \<^verbatim>\<open>update\<close> completes
  with \<^verbatim>\<open>true\<close>, and afterwards the content of the inner editor's document is the
  content of the new node, whatever the two contents were before the call: one call
  brings the inner document back in step with the node after any outer edits of the
  node's content. The view is then bound to the new node and its outer view is as it was.
\<close>

theorem update_syncs_content:
  assumes "sameMarkup n (node v)" and "innerView v = Some iv"
  shows "\<exists>iv'. update v n = Inr (True, v\<lparr>node := n, innerView := Some iv'\<rparr>)
           \<and> content (doc (state iv')) = content n"
  using assms by (rule update_compatible)

theorem update_syncs_content_witness:
  "sameMarkup (liquidNode ''aaa'') (node (exampleView ''aa''))
   \<and> innerView (exampleView ''aa'') = Some (exampleInner ''aa'')
   \<and> (\<exists>iv'. update (exampleView ''aa'') (liquidNode ''aaa'')
               = Inr (True, (exampleView ''aa'')\<lparr>node := liquidNode ''aaa'', innerView := Some iv'\<rparr>)
           \<and> content (doc (state iv')) = content (liquidNode ''aaa''))"
proof -
  have h1: "sameMarkup (liquidNode ''aaa'') (node (exampleView ''aa''))"
    by (simp add: sameMarkup_def liquidNode_def exampleView_def)
  have h2: "innerView (exampleView ''aa'') = Some (exampleInner ''aa'')"
    by (simp add: exampleView_def)
  show ?thesis using h1 h2 update_syncs_content[OF h1 h2] by blast
qed

text \<open>
  Claim C4. \<^verbatim>\<open>update\<close> always returns, and its result is \<^verbatim>\<open>false\<close> exactly when the
  markup of the new node differs from that of the bound node. With the same markup the
  view is bound to the new node and the result is \<^verbatim>\<open>true\<close>; when the inner document
  already has the new node's content, nothing else changes: no inner transaction is
  dispatched.
\<close>

theorem update_result:
  "(\<exists>v'. update v n = Inr (sameMarkup n (node v), v')
         \<and> node v' = (if sameMarkup n (node v) then n else node v))
   \<and> (sameMarkup n (node v)
        \<and> (case innerView v of None \<Rightarrow> True
            | Some iv \<Rightarrow> content (doc (state iv)) = content n)
      \<longrightarrow> update v n = Inr (True, v\<lparr>node := n\<rparr>))"
proof -
  have "\<exists>v'. update v n = Inr (sameMarkup n (node v), v')
         \<and> node v' = (if sameMarkup n (node v) then n else node v)"
    using update_total[of v n] by blast
  moreover have "update v n = Inr (True, v\<lparr>node := n\<rparr>)"
    if "sameMarkup n (node v)"
      "case innerView v of None \<Rightarrow> True | Some iv \<Rightarrow> content (doc (state iv)) = content n"
  proof (cases "innerView v")
    case None
    with that(1) show ?thesis by (rule update_no_inner)
  next
    case (Some iv)
    with that(2) have "content (doc (state iv)) = content n" by simp
    with that(1) Some show ?thesis by (rule update_in_sync)
  qed
  ultimately show ?thesis by blast
qed

theorem update_result_witness:
  "sameMarkup (liquidNode ''aa'') (node (exampleView ''aa''))
   \<and> (case innerView (exampleView ''aa'') of None \<Rightarrow> True
       | Some iv \<Rightarrow> content (doc (state iv)) = content (liquidNode ''aa''))
   \<and> update (exampleView ''aa'') (liquidNode ''aa'')
       = Inr (True, (exampleView ''aa'')\<lparr>node := liquidNode ''aa''\<rparr>)"
proof -
  have h1: "sameMarkup (liquidNode ''aa'') (node (exampleView ''aa''))"
    by (simp add: sameMarkup_def liquidNode_def exampleView_def)
  have h2: "case innerView (exampleView ''aa'') of None \<Rightarrow> True
            | Some iv \<Rightarrow> content (doc (state iv)) = content (liquidNode ''aa'')"
    by (simp add: exampleView_def exampleInner_def EditorState_create_def)
  show ?thesis
    using h1 h2 update_result[of "exampleView ''aa''" "liquidNode ''aa''"] by blast
qed

text \<open>
  Claim C10. For a node whose markup differs from that of the bound node, \<^verbatim>\<open>update\<close>
  returns \<^verbatim>\<open>false\<close> and the view it leaves is the view it found: the bound node, the
  inner editor and the outer editor are unchanged.
\<close>

theorem update_incompatible_unchanged:
  assumes "\<not> sameMarkup n (node v)"
  shows "update v n = Inr (False, v)"
  using assms by (rule update_incompatible)

theorem update_incompatible_unchanged_witness:
  "\<not> sameMarkup ((liquidNode ''aaa'')\<lparr>marks := [''strong'']\<rparr>) (node (exampleView ''aa''))
   \<and> update (exampleView ''aa'') ((liquidNode ''aaa'')\<lparr>marks := [''strong'']\<rparr>)
       = Inr (False, exampleView ''aa'')"
proof -
  have h: "\<not> sameMarkup ((liquidNode ''aaa'')\<lparr>marks := [''strong'']\<rparr>) (node (exampleView ''aa''))"
    by (simp add: sameMarkup_def liquidNode_def exampleView_def)
  show ?thesis using h update_incompatible_unchanged[OF h] by blast
qed

text \<open>
  Claim C8. When \<^verbatim>\<open>update\<close> gets a node of the bound node's markup whose content
  differs from the inner document's, with \<open>start\<close> the diff start and \<open>(endA, endB)\<close> the
  diff end of the two contents, it moves both ends by \<open>start - min endA endB\<close> when
  \<open>start\<close> exceeds \<open>min endA endB\<close> and leaves them alone otherwise (the subtraction of
  natural numbers is \<open>0\<close> then). After that \<open>start\<close> is at most either end and the ends
  lie inside their contents, so the slice \<open>[start, endA)\<close> of the new node exists and the
  replacement of \<open>[start, endB)\<close> in the inner document by it applies, as one step, and
  gives the new node's content. \<^verbatim>\<open>update\<close> dispatches exactly this transaction, tagged
  \<^verbatim>\<open>fromOutside\<close>, through \<^verbatim>\<open>dispatchInner\<close>, and returns \<^verbatim>\<open>true\<close> with the inner state
  the transaction leads to.
\<close>

theorem update_widened_range:
  assumes sm: "sameMarkup n (node v)" and iv: "innerView v = Some iv"
    and ds: "findDiffStart (content n) (content (doc (state iv))) 0 = Some start"
    and de: "findDiffEnd (content n) (content (doc (state iv))) = Some (endA, endB)"
    and w: "widen start (endA, endB) = (endA', endB')"
  shows "endA' = endA + (start - min endA endB) \<and> endB' = endB + (start - min endA endB)
         \<and> start \<le> endA' \<and> start \<le> endB'
         \<and> endA' \<le> length (content n) \<and> endB' \<le> length (content (doc (state iv)))
         \<and> (\<exists>sl tr. slice n start endA' = Inr sl
               \<and> tr_replace (state_tr (state iv)) start endB' sl = Inr tr
               \<and> steps tr = [ReplaceStep start endB' sl]
               \<and> content (tr_doc tr) = content n
               \<and> update v n
                   = (case dispatchInner (v\<lparr>node := n\<rparr>) (setMeta tr ''fromOutside'' True) of
                        Inl e \<Rightarrow> Inl e
                      | Inr v2 \<Rightarrow> Inr (True, v2))
               \<and> update v n
                   = Inr (True, v\<lparr>node := n,
                            innerView := Some (iv\<lparr>state :=
                              \<lparr>doc = tr_doc tr, selection = tr_selection tr\<rparr>\<rparr>)\<rparr>))"
proof -
  have ends: "endA' = endA + (start - min endA endB) \<and> endB' = endB + (start - min endA endB)"
  proof (cases "overlap start endA endB > 0")
    case True
    then have "nat (overlap start endA endB) = start - min endA endB"
      unfolding overlap_def by linarith
    with True w show ?thesis by (auto simp: widen_def)
  next
    case False
    then have "start - min endA endB = 0" unfolding overlap_def by linarith
    with False w show ?thesis by (auto simp: widen_def)
  qed
  from diff_replace[OF ds de w] obtain sl tr where
    r: "start \<le> endA'" "start \<le> endB'" "endA' \<le> length (content n)"
       "endB' \<le> length (content (doc (state iv)))"
    and sl: "slice n start endA' = Inr sl"
    and tr: "tr_replace (state_tr (state iv)) start endB' sl = Inr tr"
    and c: "content (tr_doc tr) = content n"
    and b: "before tr = doc (state iv)"
    by blast
  have s: "steps tr = [ReplaceStep start endB' sl]"
    using ds de w sl tr c by (rule diff_replace_step)
  have u1: "update v n
              = (case dispatchInner (v\<lparr>node := n\<rparr>) (setMeta tr ''fromOutside'' True) of
                   Inl e \<Rightarrow> Inl e
                 | Inr v2 \<Rightarrow> Inr (True, v2))"
    using sm iv ds de w sl tr by (rule update_unfold)
  have iv1: "innerView (v\<lparr>node := n\<rparr>) = Some iv" using iv by simp
  have b1: "before (setMeta tr ''fromOutside'' True) = doc (state iv)"
    using b by (simp add: setMeta_def)
  have u2: "update v n
              = Inr (True, v\<lparr>node := n,
                       innerView := Some (iv\<lparr>state :=
                         \<lparr>doc = tr_doc tr, selection = tr_selection tr\<rparr>\<rparr>)\<rparr>)"
    unfolding u1 using dispatchInner_tagged[OF iv1 b1 truthy_setMeta]
    by (simp add: setMeta_def)
  show ?thesis using ends r sl tr s c u1 u2 by blast
qed

theorem update_widened_range_witness:
  "findDiffStart (content (liquidNode ''aaa'')) (content (doc (state (exampleInner ''aa'')))) 0
     = Some 2
   \<and> findDiffEnd (content (liquidNode ''aaa'')) (content (doc (state (exampleInner ''aa''))))
     = Some (1, 0)
   \<and> widen 2 (1, 0) = (3, 2)
   \<and> slice (liquidNode ''aaa'') 2 3 = Inr (textOf ''a'')
   \<and> (\<exists>tr. tr_replace (state_tr (state (exampleInner ''aa''))) 2 2 (textOf ''a'') = Inr tr
         \<and> steps tr = [ReplaceStep 2 2 (textOf ''a'')]
         \<and> tr_doc tr = liquidNode ''aaa'')
   \<and> update (exampleView ''aa'') (liquidNode ''aaa'')
       = Inr (True, (exampleView ''aa'')
               \<lparr>node := liquidNode ''aaa'',
                innerView := Some ((exampleInner ''aa'')
                  \<lparr>state := \<lparr>doc = liquidNode ''aaa'', selection = \<lparr>anchor = 0, head = 0\<rparr>\<rparr>\<rparr>)\<rparr>)"
proof -
  let ?v = "exampleView ''aa''" and ?iv = "exampleInner ''aa''" and ?n = "liquidNode ''aaa''"
  have sm: "sameMarkup ?n (node ?v)"
    by (simp add: sameMarkup_def liquidNode_def exampleView_def)
  have iv: "innerView ?v = Some ?iv" by (simp add: exampleView_def)
  have h1: "findDiffStart (content ?n) (content (doc (state ?iv))) 0 = Some 2"
    by (simp add: liquidNode_def textOf_def exampleInner_def EditorState_create_def)
  have h2: "findDiffEnd (content ?n) (content (doc (state ?iv))) = Some (1, 0)"
    by (simp add: findDiffEnd_def liquidNode_def textOf_def exampleInner_def EditorState_create_def)
  have h3: "widen 2 (1, 0) = (3, 2)"
    by (simp add: widen_def overlap_def)
  have sl0: "slice ?n 2 3 = Inr (textOf ''a'')"
    by (simp add: slice_def liquidNode_def textOf_def)
  from update_widened_range[OF sm iv h1 h2 h3] obtain sl tr where
    r: "slice ?n 2 3 = Inr sl"
       "tr_replace (state_tr (state ?iv)) 2 2 sl = Inr tr"
       "steps tr = [ReplaceStep 2 2 sl]"
       "update ?v ?n
          = Inr (True, ?v\<lparr>node := ?n,
                   innerView := Some (?iv\<lparr>state :=
                     \<lparr>doc = tr_doc tr, selection = tr_selection tr\<rparr>\<rparr>)\<rparr>)"
    by blast
  from r(1) sl0 have sl: "sl = textOf ''a''" by simp
  have t: "tr_doc tr = liquidNode ''aaa''" "tr_selection tr = \<lparr>anchor = 0, head = 0\<rparr>"
    using r(2) unfolding sl
    by (auto simp: tr_replace_def tr_step_def state_tr_def exampleInner_def EditorState_create_def
        liquidNode_def textOf_def mapSelection_def)
  have e: "\<exists>tr. tr_replace (state_tr (state ?iv)) 2 2 (textOf ''a'') = Inr tr
         \<and> steps tr = [ReplaceStep 2 2 (textOf ''a'')]
         \<and> tr_doc tr = liquidNode ''aaa''"
    using r(2,3) t(1) unfolding sl by blast
  have u: "update ?v ?n
       = Inr (True, ?v\<lparr>node := ?n,
                innerView := Some (?iv\<lparr>state :=
                  \<lparr>doc = liquidNode ''aaa'', selection = \<lparr>anchor = 0, head = 0\<rparr>\<rparr>\<rparr>)\<rparr>)"
    using r(4) unfolding t .
  from h1 h2 h3 sl0 e u show ?thesis by (intro conjI)
qed

subsection \<open>Inner to outer: \<^verbatim>\<open>dispatchInner\<close>\<close>

text \<open>
  Claim C2. For a transaction that carries the tag \<^verbatim>\<open>fromOutside\<close>, \<^verbatim>\<open>dispatchInner\<close>
  either fails before it changes anything (no inner view, or a transaction that does
  not start from the inner document) or returns the view with the inner state replaced
  by the transaction's and nothing else touched: the outer view, with the record of what
  was dispatched on it, is the one before the call. The transaction \<^verbatim>\<open>update\<close> dispatches
  carries the tag, so \<^verbatim>\<open>update\<close> always returns with the outer view as it was.
\<close>

theorem dispatchInner_fromOutside_stays_inside:
  assumes "truthy (getMeta tr ''fromOutside'')"
  shows "dispatchInner v tr
           = (case innerView v of
                None \<Rightarrow> Inl TypeError
              | Some iv \<Rightarrow>
                  if before tr = doc (state iv)
                  then Inr (v\<lparr>innerView :=
                              Some (iv\<lparr>state := \<lparr>doc = tr_doc tr, selection = tr_selection tr\<rparr>\<rparr>)\<rparr>)
                  else Inl RangeError)
         \<and> (\<exists>b v'. update v n = Inr (b, v') \<and> outerView v' = outerView v)"
proof -
  have "dispatchInner v tr
           = (case innerView v of
                None \<Rightarrow> Inl TypeError
              | Some iv \<Rightarrow>
                  if before tr = doc (state iv)
                  then Inr (v\<lparr>innerView :=
                              Some (iv\<lparr>state := \<lparr>doc = tr_doc tr, selection = tr_selection tr\<rparr>\<rparr>)\<rparr>)
                  else Inl RangeError)"
    using assms
    by (simp add: dispatchInner_def dispatchInnerWith_def applyTransaction_def apply_tr_def updateState_def
        split: option.splits)
  moreover have "\<exists>b v'. update v n = Inr (b, v') \<and> outerView v' = outerView v"
    using update_total[of v n] by blast
  ultimately show ?thesis by blast
qed

theorem dispatchInner_fromOutside_stays_inside_witness:
  "truthy (getMeta (setMeta exampleEdit ''fromOutside'' True) ''fromOutside'')
   \<and> dispatchInner (exampleView ''aa'') (setMeta exampleEdit ''fromOutside'' True)
       = Inr ((exampleView ''aa'')
               \<lparr>innerView := Some ((exampleInner ''aa'')
                  \<lparr>state := \<lparr>doc = liquidNode ''aba'', selection = \<lparr>anchor = 0, head = 0\<rparr>\<rparr>\<rparr>)\<rparr>)
   \<and> (\<exists>b v'. update (exampleView ''aa'') (liquidNode ''aaa'') = Inr (b, v')
         \<and> outerView v' = outerView (exampleView ''aa''))"
proof -
  have h: "truthy (getMeta (setMeta exampleEdit ''fromOutside'' True) ''fromOutside'')"
    by (rule truthy_setMeta)
  have i: "innerView (exampleView ''aa'') = Some (exampleInner ''aa'')"
    by (simp add: exampleView_def)
  have b: "before (setMeta exampleEdit ''fromOutside'' True) = doc (state (exampleInner ''aa''))"
    by (simp add: setMeta_def exampleEdit_def exampleInner_def EditorState_create_def)
  have d: "tr_doc (setMeta exampleEdit ''fromOutside'' True) = liquidNode ''aba''"
    "tr_selection (setMeta exampleEdit ''fromOutside'' True) = \<lparr>anchor = 0, head = 0\<rparr>"
    by (simp_all add: setMeta_def exampleEdit_def)
  show ?thesis
    using h dispatchInner_fromOutside_stays_inside[OF h, of "exampleView ''aa''" "liquidNode ''aaa''"]
    by (simp add: i b d)
qed

text \<open>
  Claim C3. For a transaction without the tag \<^verbatim>\<open>fromOutside\<close>, \<^verbatim>\<open>dispatchInner\<close> builds
  one outer transaction whose steps are the steps of every transaction the framework
  reports as applied, in the order of the transactions and of the steps in each, every
  step moved by the node's outer position plus one. This holds for whatever list of
  applied transactions the framework's \<^verbatim>\<open>applyTransaction\<close> returns, as long as their
  steps lead from the inner document to the new inner state's document. All the moved
  steps apply when the outer document holds the inner document's content between the
  node's two boundaries, and the outer transaction's document then holds the new inner
  content at that place, the rest as before. The outer transaction is dispatched on the
  outer view when its \<^verbatim>\<open>docChanged\<close> flag is set, and only then; otherwise the outer view is
  as it was. The second part states the same for the inner editor as the constructor
  configures it, where a well-formed transaction on the inner document is applied as it
  is.
\<close>

theorem dispatchInner_propagates:
  assumes iv: "innerView v = Some iv"
    and at: "applyT (state iv) tr = Inr (st, transactions)"
    and chain: "apply_steps (doc (state iv)) (concat (map steps transactions)) = Inr (doc st)"
    and nt: "\<not> truthy (getMeta tr ''fromOutside'')"
    and emb: "content (doc (state (outerView v)))
                = pre @ Open ty # content (doc (state iv)) @ Close ty # post"
    and len: "length pre = getPos v"
  shows "(\<exists>outerTr.
           mapTransactions (state_tr (state (outerView v))) transactions
              (StepMap_offset (getPos v + 1)) = Inr outerTr
         \<and> steps outerTr
             = map (\<lambda>s. case s of ReplaceStep f t sl \<Rightarrow>
                          ReplaceStep (f + (getPos v + 1)) (t + (getPos v + 1)) sl)
                 (concat (map steps transactions))
         \<and> content (tr_doc outerTr) = pre @ Open ty # content (doc st) @ Close ty # post
         \<and> dispatchInnerWith applyT v tr
             = (if docChanged outerTr
                then Inr (v\<lparr>innerView := Some (iv\<lparr>state := st\<rparr>),
                            outerView := (outerView v)
                              \<lparr>state := \<lparr>doc = tr_doc outerTr, selection = tr_selection outerTr\<rparr>,
                               dispatched := dispatched (outerView v) @ [outerTr]\<rparr>\<rparr>)
                else Inr (v\<lparr>innerView := Some (iv\<lparr>state := st\<rparr>)\<rparr>)))
       \<and> (before tr = doc (state iv) \<and> wf_transaction tr \<longrightarrow>
           (\<exists>st' transactions' outerTr.
               applyTransaction (state iv) tr = Inr (st', transactions')
             \<and> mapTransactions (state_tr (state (outerView v))) transactions'
                  (StepMap_offset (getPos v + 1)) = Inr outerTr
             \<and> steps outerTr
                 = map (\<lambda>s. case s of ReplaceStep f t sl \<Rightarrow>
                              ReplaceStep (f + (getPos v + 1)) (t + (getPos v + 1)) sl)
                     (concat (map steps transactions'))
             \<and> content (tr_doc outerTr) = pre @ Open ty # content (doc st') @ Close ty # post
             \<and> dispatchInner v tr
                 = (if docChanged outerTr
                    then Inr (v\<lparr>innerView := Some (iv\<lparr>state := st'\<rparr>),
                                outerView := (outerView v)
                                  \<lparr>state := \<lparr>doc = tr_doc outerTr,
                                             selection = tr_selection outerTr\<rparr>,
                                   dispatched := dispatched (outerView v) @ [outerTr]\<rparr>\<rparr>)
                    else Inr (v\<lparr>innerView := Some (iv\<lparr>state := st'\<rparr>)\<rparr>))))"
proof (intro conjI impI)
  show "\<exists>outerTr.
           mapTransactions (state_tr (state (outerView v))) transactions
              (StepMap_offset (getPos v + 1)) = Inr outerTr
         \<and> steps outerTr
             = map (\<lambda>s. case s of ReplaceStep f t sl \<Rightarrow>
                          ReplaceStep (f + (getPos v + 1)) (t + (getPos v + 1)) sl)
                 (concat (map steps transactions))
         \<and> content (tr_doc outerTr) = pre @ Open ty # content (doc st) @ Close ty # post
         \<and> dispatchInnerWith applyT v tr
             = (if docChanged outerTr
                then Inr (v\<lparr>innerView := Some (iv\<lparr>state := st\<rparr>),
                            outerView := (outerView v)
                              \<lparr>state := \<lparr>doc = tr_doc outerTr, selection = tr_selection outerTr\<rparr>,
                               dispatched := dispatched (outerView v) @ [outerTr]\<rparr>\<rparr>)
                else Inr (v\<lparr>innerView := Some (iv\<lparr>state := st\<rparr>)\<rparr>))"
    using iv at chain nt emb len by (rule dispatchInnerWith_propagates)
next
  assume a: "before tr = doc (state iv) \<and> wf_transaction tr"
  let ?st = "\<lparr>doc = tr_doc tr, selection = tr_selection tr\<rparr>"
  from a applyTransaction_wf[of tr "state iv"]
  have at': "applyTransaction (state iv) tr = Inr (?st, [tr])"
    and chain': "apply_steps (doc (state iv)) (concat (map steps [tr])) = Inr (doc ?st)"
    by blast+
  from dispatchInnerWith_propagates[where applyT = applyTransaction and st = ?st
      and transactions = "[tr]", OF iv at' chain' nt emb len]
  show "\<exists>st' transactions' outerTr.
               applyTransaction (state iv) tr = Inr (st', transactions')
             \<and> mapTransactions (state_tr (state (outerView v))) transactions'
                  (StepMap_offset (getPos v + 1)) = Inr outerTr
             \<and> steps outerTr
                 = map (\<lambda>s. case s of ReplaceStep f t sl \<Rightarrow>
                              ReplaceStep (f + (getPos v + 1)) (t + (getPos v + 1)) sl)
                     (concat (map steps transactions'))
             \<and> content (tr_doc outerTr) = pre @ Open ty # content (doc st') @ Close ty # post
             \<and> dispatchInner v tr
                 = (if docChanged outerTr
                    then Inr (v\<lparr>innerView := Some (iv\<lparr>state := st'\<rparr>),
                                outerView := (outerView v)
                                  \<lparr>state := \<lparr>doc = tr_doc outerTr,
                                             selection = tr_selection outerTr\<rparr>,
                                   dispatched := dispatched (outerView v) @ [outerTr]\<rparr>\<rparr>)
                    else Inr (v\<lparr>innerView := Some (iv\<lparr>state := st'\<rparr>)\<rparr>))"
    unfolding dispatchInner_def using at' by blast
qed

theorem dispatchInner_propagates_witness:
  "exampleApply (state (exampleInner ''aa'')) exampleEdit
     = Inr (\<lparr>doc = liquidNode ''bac'', selection = \<lparr>anchor = 0, head = 0\<rparr>\<rparr>,
            [exampleEdit, exampleAppended])
   \<and> \<not> truthy (getMeta exampleEdit ''fromOutside'')
   \<and> (\<exists>v'. dispatchInnerWith exampleApply (exampleView ''aa'') exampleEdit = Inr v'
         \<and> content (doc (state (outerView v')))
             = [Open para, Chr CHR ''x'' [], Open liquid] @ textOf ''bac''
               @ [Close liquid, Chr CHR ''y'' [], Close para]
         \<and> (\<exists>outerTr. dispatched (outerView v') = [outerTr]
               \<and> steps outerTr
                   = [ReplaceStep 4 4 (textOf ''b''), ReplaceStep 6 6 (textOf ''c''),
                      ReplaceStep 3 4 []]))
   \<and> wf_transaction exampleEdit
   \<and> (\<exists>v'. dispatchInner (exampleView ''aa'') exampleEdit = Inr v'
         \<and> content (doc (state (outerView v')))
             = [Open para, Chr CHR ''x'' [], Open liquid] @ textOf ''aba''
               @ [Close liquid, Chr CHR ''y'' [], Close para]
         \<and> (\<exists>outerTr. dispatched (outerView v') = [outerTr]
               \<and> steps outerTr = [ReplaceStep 4 4 (textOf ''b'')]))"
proof -
  let ?v = "exampleView ''aa''" and ?iv = "exampleInner ''aa''"
  let ?st = "\<lparr>doc = liquidNode ''bac'', selection = \<lparr>anchor = 0, head = 0\<rparr>\<rparr>"
  let ?pre = "[Open para, Chr CHR ''x'' []]" and ?post = "[Chr CHR ''y'' [], Close para]"
  have iv: "innerView ?v = Some ?iv" by (simp add: exampleView_def)
  have at: "exampleApply (state ?iv) exampleEdit = Inr (?st, [exampleEdit, exampleAppended])"
    by (simp add: exampleApply_def apply_tr_def exampleEdit_def exampleAppended_def
        exampleInner_def EditorState_create_def)
  have chain: "apply_steps (doc (state ?iv)) (concat (map steps [exampleEdit, exampleAppended]))
                 = Inr (doc ?st)"
    by (simp add: exampleEdit_def exampleAppended_def exampleInner_def EditorState_create_def
        liquidNode_def textOf_def)
  have nt: "\<not> truthy (getMeta exampleEdit ''fromOutside'')"
    by (simp add: truthy_def getMeta_def exampleEdit_def)
  have emb: "content (doc (state (outerView ?v)))
               = ?pre @ Open liquid # content (doc (state ?iv)) @ Close liquid # ?post"
    by (simp add: exampleView_def exampleOuter_def exampleInner_def EditorState_create_def
        outerDoc_def liquidNode_def)
  have len: "length ?pre = getPos ?v" by (simp add: exampleView_def)
  have b: "before exampleEdit = doc (state ?iv)"
    by (simp add: exampleEdit_def exampleInner_def EditorState_create_def)
  have wf: "wf_transaction exampleEdit"
    by (simp add: wf_transaction_def exampleEdit_def liquidNode_def textOf_def)
  have d: "dispatched (outerView ?v) = []" by (simp add: exampleView_def exampleOuter_def)
  note th = dispatchInner_propagates[where applyT = exampleApply and st = ?st
      and transactions = "[exampleEdit, exampleAppended]", OF iv at chain nt emb len]
  from th obtain outerTr where r:
    "steps outerTr
       = map (\<lambda>s. case s of ReplaceStep f t sl \<Rightarrow>
                   ReplaceStep (f + (getPos ?v + 1)) (t + (getPos ?v + 1)) sl)
           (concat (map steps [exampleEdit, exampleAppended]))"
    "content (tr_doc outerTr) = ?pre @ Open liquid # content (doc ?st) @ Close liquid # ?post"
    "dispatchInnerWith exampleApply ?v exampleEdit
       = (if docChanged outerTr
          then Inr (?v\<lparr>innerView := Some (?iv\<lparr>state := ?st\<rparr>),
                       outerView := (outerView ?v)
                         \<lparr>state := \<lparr>doc = tr_doc outerTr, selection = tr_selection outerTr\<rparr>,
                          dispatched := dispatched (outerView ?v) @ [outerTr]\<rparr>\<rparr>)
          else Inr (?v\<lparr>innerView := Some (?iv\<lparr>state := ?st\<rparr>)\<rparr>))"
    by blast
  have s: "steps outerTr
             = [ReplaceStep 4 4 (textOf ''b''), ReplaceStep 6 6 (textOf ''c''), ReplaceStep 3 4 []]"
    using r(1) by (simp add: exampleEdit_def exampleAppended_def exampleView_def)
  then have dc: "docChanged outerTr" by (simp add: docChanged_def)
  have c: "content (tr_doc outerTr)
             = [Open para, Chr CHR ''x'' [], Open liquid] @ textOf ''bac''
               @ [Close liquid, Chr CHR ''y'' [], Close para]"
    using r(2) by (simp add: liquidNode_def)
  have g: "\<exists>v'. dispatchInnerWith exampleApply ?v exampleEdit = Inr v'
         \<and> content (doc (state (outerView v')))
             = [Open para, Chr CHR ''x'' [], Open liquid] @ textOf ''bac''
               @ [Close liquid, Chr CHR ''y'' [], Close para]
         \<and> (\<exists>outerTr. dispatched (outerView v') = [outerTr]
               \<and> steps outerTr
                   = [ReplaceStep 4 4 (textOf ''b''), ReplaceStep 6 6 (textOf ''c''),
                      ReplaceStep 3 4 []])"
    using r(3) dc s c d by simp
  from th b wf obtain st' transactions' outerTr' where r':
    "applyTransaction (state ?iv) exampleEdit = Inr (st', transactions')"
    "steps outerTr'
       = map (\<lambda>s. case s of ReplaceStep f t sl \<Rightarrow>
                   ReplaceStep (f + (getPos ?v + 1)) (t + (getPos ?v + 1)) sl)
           (concat (map steps transactions'))"
    "content (tr_doc outerTr') = ?pre @ Open liquid # content (doc st') @ Close liquid # ?post"
    "dispatchInner ?v exampleEdit
       = (if docChanged outerTr'
          then Inr (?v\<lparr>innerView := Some (?iv\<lparr>state := st'\<rparr>),
                       outerView := (outerView ?v)
                         \<lparr>state := \<lparr>doc = tr_doc outerTr', selection = tr_selection outerTr'\<rparr>,
                          dispatched := dispatched (outerView ?v) @ [outerTr']\<rparr>\<rparr>)
          else Inr (?v\<lparr>innerView := Some (?iv\<lparr>state := st'\<rparr>)\<rparr>))"
    by blast
  from r'(1) b have st': "st' = \<lparr>doc = liquidNode ''aba'', selection = \<lparr>anchor = 0, head = 0\<rparr>\<rparr>"
    and ts': "transactions' = [exampleEdit]"
    by (auto simp: applyTransaction_def apply_tr_def exampleEdit_def)
  have s': "steps outerTr' = [ReplaceStep 4 4 (textOf ''b'')]"
    using r'(2) unfolding ts' by (simp add: exampleEdit_def exampleView_def)
  then have dc': "docChanged outerTr'" by (simp add: docChanged_def)
  have c': "content (tr_doc outerTr')
             = [Open para, Chr CHR ''x'' [], Open liquid] @ textOf ''aba''
               @ [Close liquid, Chr CHR ''y'' [], Close para]"
    using r'(3) unfolding st' by (simp add: liquidNode_def)
  have g': "\<exists>v'. dispatchInner ?v exampleEdit = Inr v'
         \<and> content (doc (state (outerView v')))
             = [Open para, Chr CHR ''x'' [], Open liquid] @ textOf ''aba''
               @ [Close liquid, Chr CHR ''y'' [], Close para]
         \<and> (\<exists>outerTr. dispatched (outerView v') = [outerTr]
               \<and> steps outerTr = [ReplaceStep 4 4 (textOf ''b'')])"
    using r'(4) dc' s' c' d by simp
  from at nt g wf g' show ?thesis by (intro conjI)
qed

subsection \<open>Leaving the node: \<^verbatim>\<open>maybeEscape\<close>\<close>

text \<open>
  Claim C5. With a collapsed inner selection on the edge that matches the direction
  (start \<open>0\<close> for a negative direction such as \<open>-1\<close>, end equal to the getter
  \<^verbatim>\<open>length\<close>, the node's size minus two, for any other direction such as \<open>1\<close>), and the node's range lying inside the outer document,
  \<^verbatim>\<open>maybeEscape\<close> returns \<^verbatim>\<open>true\<close>; the one transaction it dispatches on the outer view sets
  a collapsed selection at the node's outer position in the first case and at that
  position plus the node's size in the second; the outer view has the focus and its
  document is unchanged.
\<close>

theorem maybeEscape_at_edge:
  assumes iv: "innerView v = Some iv"
    and e: "sempty (selection (state iv))"
    and edge: "dir < 0 \<and> sfrom (selection (state iv)) = 0
               \<or> \<not> dir < 0 \<and> sto (selection (state iv)) = lengthLV v"
    and rng: "getPos v + nodeSize (node v) \<le> length (content (doc (state (outerView v))))"
    and tgt: "target = (if dir < 0 then getPos v else getPos v + nodeSize (node v))"
  shows "\<exists>ov. maybeEscape v dir = Inr (True, v\<lparr>outerView := ov\<rparr>)
           \<and> selection (state ov) = \<lparr>anchor = target, head = target\<rparr>
           \<and> sempty (selection (state ov))
           \<and> hasFocus ov
           \<and> dispatched ov
               = dispatched (outerView v)
                 @ [tr_setSelection (state_tr (state (outerView v)))
                      \<lparr>anchor = target, head = target\<rparr>]
           \<and> doc (state ov) = doc (state (outerView v))
           \<and> lengthLV v = nodeSize (node v) - 2"
  using assms
  by (auto simp: maybeEscape_def isOnEdge_def TextSelection_create_def resolve_def dispatch_def
      apply_tr_def tr_setSelection_def state_tr_def focus_def Let_def sempty_def sfrom_def sto_def
      lengthLV_def)

theorem maybeEscape_at_edge_witness:
  "(\<exists>ov. maybeEscape (exampleView ''aa'') (- 1)
              = Inr (True, (exampleView ''aa'')\<lparr>outerView := ov\<rparr>)
          \<and> selection (state ov) = \<lparr>anchor = 2, head = 2\<rparr> \<and> hasFocus ov)
   \<and> (\<exists>ov. maybeEscape
               ((exampleView ''aa'')\<lparr>innerView := Some ((exampleInner ''aa'')
                   \<lparr>state := \<lparr>doc = liquidNode ''aa'', selection = \<lparr>anchor = 2, head = 2\<rparr>\<rparr>\<rparr>)\<rparr>) 1
              = Inr (True,
                  (exampleView ''aa'')\<lparr>innerView := Some ((exampleInner ''aa'')
                    \<lparr>state := \<lparr>doc = liquidNode ''aa'', selection = \<lparr>anchor = 2, head = 2\<rparr>\<rparr>\<rparr>),
                    outerView := ov\<rparr>)
          \<and> selection (state ov) = \<lparr>anchor = 6, head = 6\<rparr> \<and> hasFocus ov)"
proof -
  let ?v = "exampleView ''aa''" and ?iv = "exampleInner ''aa''"
  let ?iw = "(exampleInner ''aa'')
               \<lparr>state := \<lparr>doc = liquidNode ''aa'', selection = \<lparr>anchor = 2, head = 2\<rparr>\<rparr>\<rparr>"
  let ?w = "(exampleView ''aa'')\<lparr>innerView := Some ?iw\<rparr>"
  have iv: "innerView ?v = Some ?iv" by (simp add: exampleView_def)
  have e: "sempty (selection (state ?iv))"
    by (simp add: sempty_def sfrom_def sto_def exampleInner_def EditorState_create_def)
  have edge: "(- 1 :: int) < 0 \<and> sfrom (selection (state ?iv)) = 0
           \<or> \<not> (- 1 :: int) < 0 \<and> sto (selection (state ?iv)) = lengthLV ?v"
    by (simp add: sfrom_def exampleInner_def EditorState_create_def)
  have rng: "getPos ?v + nodeSize (node ?v) \<le> length (content (doc (state (outerView ?v))))"
    by (simp add: exampleView_def exampleOuter_def EditorState_create_def outerDoc_def
        liquidNode_def nodeSize_def textOf_def)
  have tgt: "2 = (if (- 1 :: int) < 0 then getPos ?v else getPos ?v + nodeSize (node ?v))"
    by (simp add: exampleView_def)
  have iw: "innerView ?w = Some ?iw" by simp
  have e': "sempty (selection (state ?iw))" by (simp add: sempty_def sfrom_def sto_def)
  have edge': "(1 :: int) < 0 \<and> sfrom (selection (state ?iw)) = 0
           \<or> \<not> (1 :: int) < 0 \<and> sto (selection (state ?iw)) = lengthLV ?w"
    by (simp add: sto_def lengthLV_def nodeSize_def exampleView_def liquidNode_def textOf_def)
  have rng': "getPos ?w + nodeSize (node ?w) \<le> length (content (doc (state (outerView ?w))))"
    by (simp add: exampleView_def exampleOuter_def EditorState_create_def outerDoc_def
        liquidNode_def nodeSize_def textOf_def)
  have tgt': "6 = (if (1 :: int) < 0 then getPos ?w else getPos ?w + nodeSize (node ?w))"
    by (simp add: exampleView_def nodeSize_def liquidNode_def textOf_def)
  show ?thesis
    using maybeEscape_at_edge[OF iv e edge rng tgt] maybeEscape_at_edge[OF iw e' edge' rng' tgt']
    by (simp del: ex_simps) blast
qed

text \<open>
  Claim C6. With an inner selection that is a range, or that is not on the edge
  matching the direction, \<^verbatim>\<open>maybeEscape\<close> returns \<^verbatim>\<open>false\<close> and the view it leaves is the
  view it found: both selections and both documents are unchanged and nothing is
  dispatched.
\<close>

theorem maybeEscape_not_at_edge:
  assumes "innerView v = Some iv"
    and "\<not> sempty (selection (state iv)) \<or> \<not> isOnEdge v (selection (state iv)) dir"
  shows "maybeEscape v dir = Inr (False, v)"
  using assms by (auto simp: maybeEscape_def)

theorem maybeEscape_not_at_edge_witness:
  "\<not> sempty \<lparr>anchor = 0, head = 2\<rparr>
   \<and> maybeEscape
        ((exampleView ''aa'')\<lparr>innerView := Some ((exampleInner ''aa'')
             \<lparr>state := \<lparr>doc = liquidNode ''aa'', selection = \<lparr>anchor = 0, head = 2\<rparr>\<rparr>\<rparr>)\<rparr>) (- 1)
       = Inr (False,
           (exampleView ''aa'')\<lparr>innerView := Some ((exampleInner ''aa'')
             \<lparr>state := \<lparr>doc = liquidNode ''aa'', selection = \<lparr>anchor = 0, head = 2\<rparr>\<rparr>\<rparr>)\<rparr>)"
proof -
  let ?iv = "(exampleInner ''aa'')
             \<lparr>state := \<lparr>doc = liquidNode ''aa'', selection = \<lparr>anchor = 0, head = 2\<rparr>\<rparr>\<rparr>"
  let ?v = "(exampleView ''aa'')\<lparr>innerView := Some ?iv\<rparr>"
  have iv: "innerView ?v = Some ?iv" by simp
  have ne: "\<not> sempty \<lparr>anchor = 0, head = 2\<rparr>" by (simp add: sempty_def sfrom_def sto_def)
  then have h: "\<not> sempty (selection (state ?iv)) \<or> \<not> isOnEdge ?v (selection (state ?iv)) (- 1)"
    by simp
  show ?thesis using ne maybeEscape_not_at_edge[OF iv h] by blast
qed

subsection \<open>Removing the empty node: \<^verbatim>\<open>maybeRemove\<close>\<close>

text \<open>
  Claim C7. \<^verbatim>\<open>maybeRemove\<close> acts exactly when the getter \<^verbatim>\<open>length\<close> is \<open>0\<close>, that is when
  the bound node has no content. Then, the node's range lying inside the outer document,
  it builds on the outer state the transaction that selects the node's range, from its
  outer position to that position plus its size, and deletes this range; the transaction
  is dispatched on the outer view with the scroll-into-view request, the outer document
  afterwards is the old one without the range, and the result is \<^verbatim>\<open>true\<close>. When the
  node has content, the view is left as it was and the result is \<^verbatim>\<open>undefined\<close>, which
  is not handled.
\<close>

theorem maybeRemove_empty_node:
  "(lengthLV v = 0 \<longleftrightarrow> content (node v) = [])
   \<and> (lengthLV v \<noteq> 0 \<longrightarrow> maybeRemove v = Inr (None, v) \<and> \<not> truthy None)
   \<and> (lengthLV v = 0
        \<and> getPos v + nodeSize (node v) \<le> length (content (doc (state (outerView v))))
      \<longrightarrow> (\<exists>tr ov. maybeRemove v = Inr (Some True, v\<lparr>outerView := ov\<rparr>)
              \<and> tr_delete (tr_setSelection (state_tr (state (outerView v)))
                     \<lparr>anchor = getPos v, head = getPos v + nodeSize (node v)\<rparr>)
                   (getPos v) (getPos v + nodeSize (node v)) = Inr tr
              \<and> steps tr = [ReplaceStep (getPos v) (getPos v + nodeSize (node v)) []]
              \<and> dispatch (outerView v) (tr_scrollIntoView tr) = Inr ov
              \<and> dispatched ov = dispatched (outerView v) @ [tr_scrollIntoView tr]
              \<and> scrolledIntoView (tr_scrollIntoView tr)
              \<and> content (doc (state ov))
                  = take (getPos v) (content (doc (state (outerView v))))
                    @ drop (getPos v + nodeSize (node v))
                        (content (doc (state (outerView v))))))"
  using maybeRemove_empty[of v] maybeRemove_nonempty[of v]
  by (simp add: lengthLV_content truthy_def)

theorem maybeRemove_empty_node_witness:
  "lengthLV (exampleView '''') = 0
   \<and> (\<exists>ov. maybeRemove (exampleView '''') = Inr (Some True, (exampleView '''')\<lparr>outerView := ov\<rparr>)
         \<and> content (doc (state ov))
             = [Open para, Chr CHR ''x'' [], Chr CHR ''y'' [], Close para])
   \<and> lengthLV (exampleView ''aa'') \<noteq> 0
   \<and> maybeRemove (exampleView ''aa'') = Inr (None, exampleView ''aa'')"
proof -
  let ?v = "exampleView ''''"
  have z: "lengthLV ?v = 0"
    by (simp add: lengthLV_def nodeSize_def exampleView_def liquidNode_def textOf_def)
  have rng: "getPos ?v + nodeSize (node ?v) \<le> length (content (doc (state (outerView ?v))))"
    by (simp add: exampleView_def exampleOuter_def EditorState_create_def outerDoc_def
        liquidNode_def nodeSize_def textOf_def)
  have nz: "lengthLV (exampleView ''aa'') \<noteq> 0"
    by (simp add: lengthLV_def nodeSize_def exampleView_def liquidNode_def textOf_def)
  have c: "take (getPos ?v) (content (doc (state (outerView ?v))))
             @ drop (getPos ?v + nodeSize (node ?v)) (content (doc (state (outerView ?v))))
           = [Open para, Chr CHR ''x'' [], Chr CHR ''y'' [], Close para]"
    by (simp add: exampleView_def exampleOuter_def EditorState_create_def outerDoc_def
        liquidNode_def nodeSize_def textOf_def)
  from maybeRemove_empty_node[of ?v] z rng
  obtain ov where "maybeRemove ?v = Inr (Some True, ?v\<lparr>outerView := ov\<rparr>)"
    "content (doc (state ov))
       = take (getPos ?v) (content (doc (state (outerView ?v))))
         @ drop (getPos ?v + nodeSize (node ?v)) (content (doc (state (outerView ?v))))"
    by blast
  moreover from maybeRemove_empty_node[of "exampleView ''aa''"] nz
  have "maybeRemove (exampleView ''aa'') = Inr (None, exampleView ''aa'')" by blast
  ultimately show ?thesis using z nz c by auto
qed

subsection \<open>Stepping over an inline node: \<^verbatim>\<open>arrowHandler\<close>\<close>

text \<open>
  Claim C9. The arrow command of a direction, \<open>left\<close> and \<open>up\<close> standing for side \<open>-1\<close>
  and \<open>right\<close> and \<open>down\<close> for side \<open>1\<close>, returns \<^verbatim>\<open>true\<close> exactly when the outer selection
  is collapsed and the node next to its head on that side exists, is not text and is
  inline. It then hands to \<^verbatim>\<open>dispatch\<close> the transaction that sets the selection which
  \<^verbatim>\<open>Selection.findFrom\<close> resolves, towards that side, from the position one further on
  that side, with the scroll-into-view request; applied to the state, it gives the same
  document with that selection. In every other case the command returns \<^verbatim>\<open>false\<close> and
  dispatches nothing. \<^verbatim>\<open>Selection.findFrom\<close> is the host framework's: the theorem takes
  the selection it resolves as given.
\<close>

theorem arrowHandler_inline_neighbour:
  assumes "sempty (selection st) \<and> isNearInlineBlock st (sideOf dir)
           \<longrightarrow> findFrom (doc st) (nat (int (head (selection st)) + sideOf dir)) (sideOf dir) True
                 = Some newSelection"
  shows "arrowHandler findFrom dir st
           = (if sempty (selection st) \<and> isNearInlineBlock st (sideOf dir)
              then Inr (True, Some (tr_scrollIntoView (tr_setSelection (state_tr st) newSelection)))
              else Inr (False, None))
         \<and> apply_tr st (tr_scrollIntoView (tr_setSelection (state_tr st) newSelection))
             = Inr \<lparr>doc = doc st, selection = newSelection\<rparr>
         \<and> scrolledIntoView (tr_scrollIntoView (tr_setSelection (state_tr st) newSelection))
         \<and> sideOf dir = (if dir = ''left'' \<or> dir = ''up'' then - 1 else 1)
         \<and> (isNearInlineBlock st (sideOf dir)
              \<longleftrightarrow> (\<exists>t. (if sideOf dir \<ge> 0 then nodeAfter (doc st) (head (selection st))
                       else nodeBefore (doc st) (head (selection st))) = Some (OtherNode t)
                      \<and> isInline t))"
proof -
  have "arrowHandler findFrom dir st
           = (if sempty (selection st) \<and> isNearInlineBlock st (sideOf dir)
              then Inr (True, Some (tr_scrollIntoView (tr_setSelection (state_tr st) newSelection)))
              else Inr (False, None))"
    using assms near_resolve[OF _ sideOf_cases, of st dir]
    by (auto simp: arrowHandler_def Let_def)
  moreover have "apply_tr st (tr_scrollIntoView (tr_setSelection (state_tr st) newSelection))
             = Inr \<lparr>doc = doc st, selection = newSelection\<rparr>"
    by (simp add: apply_tr_def tr_scrollIntoView_def tr_setSelection_def state_tr_def)
  moreover have "scrolledIntoView (tr_scrollIntoView (tr_setSelection (state_tr st) newSelection))"
    by (simp add: tr_scrollIntoView_def)
  moreover have "sideOf dir = (if dir = ''left'' \<or> dir = ''up'' then - 1 else 1)"
    by (simp add: sideOf_def)
  ultimately show ?thesis using near_iff[of st "sideOf dir"] by blast
qed

theorem arrowHandler_inline_neighbour_witness:
  "sempty (selection \<lparr>doc = outerDoc ''aa'', selection = \<lparr>anchor = 2, head = 2\<rparr>\<rparr>)
   \<and> isNearInlineBlock \<lparr>doc = outerDoc ''aa'', selection = \<lparr>anchor = 2, head = 2\<rparr>\<rparr>
        (sideOf ''right'')
   \<and> arrowHandler caretAt ''right'' \<lparr>doc = outerDoc ''aa'', selection = \<lparr>anchor = 2, head = 2\<rparr>\<rparr>
       = Inr (True, Some (tr_scrollIntoView (tr_setSelection
               (state_tr \<lparr>doc = outerDoc ''aa'', selection = \<lparr>anchor = 2, head = 2\<rparr>\<rparr>)
               \<lparr>anchor = 3, head = 3\<rparr>)))"
proof -
  let ?st = "\<lparr>doc = outerDoc ''aa'', selection = \<lparr>anchor = 2, head = 2\<rparr>\<rparr>"
  have e: "sempty (selection ?st)" by (simp add: sempty_def sfrom_def sto_def)
  have s: "sideOf ''right'' = 1" by (simp add: sideOf_def)
  have n: "isNearInlineBlock ?st (sideOf ''right'')"
    unfolding s by (simp add: isNearInlineBlock_def nodeAfter_def outerDoc_def liquid_def)
  have f: "sempty (selection ?st) \<and> isNearInlineBlock ?st (sideOf ''right'')
           \<longrightarrow> caretAt (doc ?st) (nat (int (head (selection ?st)) + sideOf ''right''))
                 (sideOf ''right'') True = Some \<lparr>anchor = 3, head = 3\<rparr>"
    unfolding s by (simp add: caretAt_def)
  show ?thesis
    using e n arrowHandler_inline_neighbour[where st = ?st and dir = "''right''"
        and findFrom = caretAt and newSelection = "\<lparr>anchor = 3, head = 3\<rparr>", OF f]
    by simp
qed

end
